theory Spec2Isabelle
  imports Main
begin

section \<open>Raw memory, element types and the operations of the standard library\<close>

text \<open>
  The source is \<^verbatim>\<open>advanced-vector/vector.h\<close>: a class template \<^verbatim>\<open>RawMemory<T>\<close> that owns
  a block of uninitialised storage, and a class template \<^verbatim>\<open>Vector<T>\<close> built on it.

  Memory is a table of blocks. \<^verbatim>\<open>operator new\<close> hands out the next address of the table;
  \<^verbatim>\<open>operator delete\<close> marks a block as released. A cell of a block is \<open>None\<close> while it is raw
  storage and \<open>Some x\<close> while an object with value \<open>x\<close> lives in it. A pointer \<^verbatim>\<open>T*\<close> is a
  base address (\<open>None\<close> is \<^verbatim>\<open>nullptr\<close>) and an offset. Allocation is assumed to succeed and
  \<^verbatim>\<open>size_t\<close> arithmetic is assumed not to overflow.
\<close>

type_synonym addr = nat

datatype op_kind = DefaultCtor | CopyCtor | MoveCtor | CopyAssign | MoveAssign

datatype loc = Outside | Temp | Cell "addr option" nat

text \<open>
  Every operation of the element type is written to a log: a constructor call or an
  assignment with its source and destination, a destructor call, and an operation that
  ended by throwing.
\<close>

datatype event = EvOp op_kind loc loc | EvDestroy loc | EvThrow op_kind

datatype ub = BadPointer | OutOfBounds | Unconstructed | DoubleFree | BadPosition

text \<open>
  A call ends by returning, by a C++ exception thrown by an operation of the element type
  (\<open>Thrown\<close>), by a failed \<^verbatim>\<open>assert\<close>, or in undefined behaviour, after which nothing more is
  executed.
\<close>

datatype fault = Thrown op_kind | AssertFailed | Undefined ub

record 'a mem =
  next_block :: addr
  block_size :: "addr \<Rightarrow> nat"
  released :: "addr \<Rightarrow> bool"
  cell :: "addr \<Rightarrow> nat \<Rightarrow> 'a option"
  trace :: "event list"

text \<open>
  The element type \<^verbatim>\<open>T\<close>: the two traits the source asks for with \<^verbatim>\<open>if constexpr\<close>, which
  of its operations throw (depending on the operations performed so far and on the value
  of the source object), the state a moved-from object is left in, and the value of a
  value-initialised object.
\<close>

record 'a elem_type =
  nothrow_move_constructible :: bool
  copy_constructible :: bool
  throws :: "event list \<Rightarrow> op_kind \<Rightarrow> 'a \<Rightarrow> bool"
  moved_from :: "'a \<Rightarrow> 'a"
  default_value :: 'a

text \<open>A move constructor that is declared \<^verbatim>\<open>noexcept\<close> does not throw.\<close>

definition raises :: "'a elem_type \<Rightarrow> event list \<Rightarrow> op_kind \<Rightarrow> 'a \<Rightarrow> bool" where
  "raises T tr k x = (throws T tr k x \<and> \<not> (k = MoveCtor \<and> nothrow_move_constructible T))"

text \<open>
  A reference to an object of the element type: an object of the caller's outside the
  modelled memory, a temporary of the running function, or a cell of a block (\<^verbatim>\<open>v[i]\<close>
  passed back to the vector).
\<close>

datatype 'a ref = Ext 'a | Tmp 'a | At "addr option" nat

datatype 'a arg = ConstRef "'a ref" | RvalueRef "'a ref"

definition empty_mem :: "'a mem" where
  "empty_mem = \<lparr>next_block = 0, block_size = (\<lambda>_. 0), released = (\<lambda>_. False),
     cell = (\<lambda>_ _. None), trace = []\<rparr>"

definition log :: "event \<Rightarrow> 'a mem \<Rightarrow> 'a mem" where
  "log e m = m\<lparr>trace := trace m @ [e]\<rparr>"

definition slot :: "'a mem \<Rightarrow> addr option \<Rightarrow> nat \<Rightarrow> fault + 'a option" where
  "slot m p i =
     (case p of
        None \<Rightarrow> Inl (Undefined BadPointer)
      | Some a \<Rightarrow>
          if next_block m \<le> a \<or> released m a then Inl (Undefined BadPointer)
          else if block_size m a \<le> i then Inl (Undefined OutOfBounds)
          else Inr (cell m a i))"

definition put :: "addr option \<Rightarrow> nat \<Rightarrow> 'a option \<Rightarrow> 'a mem \<Rightarrow> 'a mem" where
  "put p i c m =
     (case p of
        None \<Rightarrow> m
      | Some a \<Rightarrow> m\<lparr>cell := (cell m)(a := (cell m a)(i := c))\<rparr>)"

definition loc_of :: "'a ref \<Rightarrow> loc" where
  "loc_of r = (case r of Ext _ \<Rightarrow> Outside | Tmp _ \<Rightarrow> Temp | At p i \<Rightarrow> Cell p i)"

definition load :: "'a mem \<Rightarrow> 'a ref \<Rightarrow> fault + 'a" where
  "load m r =
     (case r of
        Ext x \<Rightarrow> Inr x
      | Tmp x \<Rightarrow> Inr x
      | At p i \<Rightarrow>
          (case slot m p i of
             Inl f \<Rightarrow> Inl f
           | Inr None \<Rightarrow> Inl (Undefined Unconstructed)
           | Inr (Some x) \<Rightarrow> Inr x))"

definition leave_moved :: "'a elem_type \<Rightarrow> 'a ref \<Rightarrow> 'a \<Rightarrow> 'a mem \<Rightarrow> 'a mem" where
  "leave_moved T r x m =
     (case r of Ext _ \<Rightarrow> m | Tmp _ \<Rightarrow> m | At p i \<Rightarrow> put p i (Some (moved_from T x)) m)"

text \<open>
  \<open>transfer\<close> is what a copy or move operation does with its source: read it, throw or
  not, and leave a moved source in its moved-from state.
\<close>

definition transfer ::
  "'a elem_type \<Rightarrow> op_kind \<Rightarrow> 'a ref \<Rightarrow> 'a mem \<Rightarrow> (fault + 'a) \<times> 'a mem" where
  "transfer T k r m =
     (case load m r of
        Inl f \<Rightarrow> (Inl f, m)
      | Inr x \<Rightarrow>
          if raises T (trace m) k x then (Inl (Thrown k), log (EvThrow k) m)
          else (Inr x, if k = MoveCtor \<or> k = MoveAssign then leave_moved T r x m else m))"

text \<open>\<^verbatim>\<open>new (p + i) T(src)\<close>: placement construction into the cell \<open>i\<close> of the block \<open>p\<close>.\<close>

definition construct_at ::
  "'a elem_type \<Rightarrow> op_kind \<Rightarrow> 'a ref \<Rightarrow> addr option \<Rightarrow> nat \<Rightarrow> 'a mem \<Rightarrow> (fault + unit) \<times> 'a mem" where
  "construct_at T k r p i m =
     (case slot m p i of
        Inl f \<Rightarrow> (Inl f, m)
      | Inr _ \<Rightarrow>
          (case transfer T k r m of
             (Inl f, m') \<Rightarrow> (Inl f, m')
           | (Inr x, m') \<Rightarrow> (Inr (), log (EvOp k (loc_of r) (Cell p i)) (put p i (Some x) m'))))"

definition construct_arg ::
  "'a elem_type \<Rightarrow> 'a arg \<Rightarrow> addr option \<Rightarrow> nat \<Rightarrow> 'a mem \<Rightarrow> (fault + unit) \<times> 'a mem" where
  "construct_arg T a p i m =
     (case a of
        ConstRef r \<Rightarrow> construct_at T CopyCtor r p i m
      | RvalueRef r \<Rightarrow> construct_at T MoveCtor r p i m)"

text \<open>\<^verbatim>\<open>p[i] = src\<close>: assignment to the object that lives in the cell.\<close>

definition assign_at ::
  "'a elem_type \<Rightarrow> op_kind \<Rightarrow> 'a ref \<Rightarrow> addr option \<Rightarrow> nat \<Rightarrow> 'a mem \<Rightarrow> (fault + unit) \<times> 'a mem" where
  "assign_at T k r p i m =
     (case slot m p i of
        Inl f \<Rightarrow> (Inl f, m)
      | Inr None \<Rightarrow> (Inl (Undefined Unconstructed), m)
      | Inr (Some _) \<Rightarrow>
          (case transfer T k r m of
             (Inl f, m') \<Rightarrow> (Inl f, m')
           | (Inr x, m') \<Rightarrow> (Inr (), log (EvOp k (loc_of r) (Cell p i)) (put p i (Some x) m'))))"

definition value_construct_at ::
  "'a elem_type \<Rightarrow> addr option \<Rightarrow> nat \<Rightarrow> 'a mem \<Rightarrow> (fault + unit) \<times> 'a mem" where
  "value_construct_at T p i m =
     (case slot m p i of
        Inl f \<Rightarrow> (Inl f, m)
      | Inr _ \<Rightarrow>
          if raises T (trace m) DefaultCtor (default_value T)
          then (Inl (Thrown DefaultCtor), log (EvThrow DefaultCtor) m)
          else (Inr (), log (EvOp DefaultCtor Outside (Cell p i)) (put p i (Some (default_value T)) m)))"

text \<open>\<^verbatim>\<open>std::destroy_at(p + i)\<close>: the destructor runs on a living object only.\<close>

definition destroy_at :: "addr option \<Rightarrow> nat \<Rightarrow> 'a mem \<Rightarrow> (fault + unit) \<times> 'a mem" where
  "destroy_at p i m =
     (case slot m p i of
        Inl f \<Rightarrow> (Inl f, m)
      | Inr None \<Rightarrow> (Inl (Undefined Unconstructed), m)
      | Inr (Some _) \<Rightarrow> (Inr (), log (EvDestroy (Cell p i)) (put p i None m)))"

text \<open>
  The loops of the standard algorithms run a step for the indices \<open>i\<close>, \<open>i + 1\<close>, ... and
  stop at the first step that does not return; the index reached is returned with the
  outcome.
\<close>

fun steps ::
  "(nat \<Rightarrow> 'm \<Rightarrow> (fault + unit) \<times> 'm) \<Rightarrow> nat \<Rightarrow> nat \<Rightarrow> 'm \<Rightarrow> (fault + unit) \<times> nat \<times> 'm" where
  "steps body i 0 m = (Inr (), i, m)"
| "steps body i (Suc n) m =
     (case body i m of
        (Inl f, m') \<Rightarrow> (Inl f, i, m')
      | (Inr _, m') \<Rightarrow> steps body (Suc i) n m')"

definition destroy_n :: "addr option \<Rightarrow> nat \<Rightarrow> nat \<Rightarrow> 'a mem \<Rightarrow> (fault + unit) \<times> 'a mem" where
  "destroy_n p i n m =
     (case steps (\<lambda>k. destroy_at p (i + k)) 0 n m of (r, _, m') \<Rightarrow> (r, m'))"

text \<open>
  The \<^verbatim>\<open>std::uninitialized_...\<close> algorithms catch an exception of a constructor, destroy
  the objects they have constructed so far and rethrow.
\<close>

definition rollback ::
  "addr option \<Rightarrow> nat \<Rightarrow> (fault + unit) \<times> nat \<times> 'a mem \<Rightarrow> (fault + unit) \<times> 'a mem" where
  "rollback p i res =
     (case res of
        (Inr u, _, m') \<Rightarrow> (Inr u, m')
      | (Inl (Thrown k), cnt, m') \<Rightarrow>
          (case destroy_n p i cnt m' of
             (Inl f, m'') \<Rightarrow> (Inl f, m'')
           | (Inr _, m'') \<Rightarrow> (Inl (Thrown k), m''))
      | (Inl f, _, m') \<Rightarrow> (Inl f, m'))"

definition uninitialized_copy_n ::
  "'a elem_type \<Rightarrow> addr option \<Rightarrow> nat \<Rightarrow> nat \<Rightarrow> addr option \<Rightarrow> nat \<Rightarrow> 'a mem \<Rightarrow> (fault + unit) \<times> 'a mem" where
  "uninitialized_copy_n T sp si n dp di m =
     rollback dp di (steps (\<lambda>k. construct_at T CopyCtor (At sp (si + k)) dp (di + k)) 0 n m)"

definition uninitialized_move_n ::
  "'a elem_type \<Rightarrow> addr option \<Rightarrow> nat \<Rightarrow> nat \<Rightarrow> addr option \<Rightarrow> nat \<Rightarrow> 'a mem \<Rightarrow> (fault + unit) \<times> 'a mem" where
  "uninitialized_move_n T sp si n dp di m =
     rollback dp di (steps (\<lambda>k. construct_at T MoveCtor (At sp (si + k)) dp (di + k)) 0 n m)"

definition uninitialized_value_construct_n ::
  "'a elem_type \<Rightarrow> addr option \<Rightarrow> nat \<Rightarrow> nat \<Rightarrow> 'a mem \<Rightarrow> (fault + unit) \<times> 'a mem" where
  "uninitialized_value_construct_n T p i n m =
     rollback p i (steps (\<lambda>k. value_construct_at T p (i + k)) 0 n m)"

text \<open>\<^verbatim>\<open>std::copy_n\<close>: copy assignment, first to last.\<close>

definition copy_n ::
  "'a elem_type \<Rightarrow> addr option \<Rightarrow> nat \<Rightarrow> nat \<Rightarrow> addr option \<Rightarrow> nat \<Rightarrow> 'a mem \<Rightarrow> (fault + unit) \<times> 'a mem" where
  "copy_n T sp si n dp di m =
     (case steps (\<lambda>k. assign_at T CopyAssign (At sp (si + k)) dp (di + k)) 0 n m of
        (r, _, m') \<Rightarrow> (r, m'))"

text \<open>
  \<^verbatim>\<open>std::move(first, last, d_first)\<close> on the cells \<open>first \<le> j < lst\<close> of one block: move
  assignment, first to last. A range with \<open>lst < first\<close> is not a range.
\<close>

definition move_range ::
  "'a elem_type \<Rightarrow> addr option \<Rightarrow> nat \<Rightarrow> nat \<Rightarrow> nat \<Rightarrow> 'a mem \<Rightarrow> (fault + unit) \<times> 'a mem" where
  "move_range T p first lst d_first m =
     (if lst < first then (Inl (Undefined BadPosition), m)
      else (case steps (\<lambda>k. assign_at T MoveAssign (At p (first + k)) p (d_first + k)) 0 (lst - first) m of
              (r, _, m') \<Rightarrow> (r, m')))"

text \<open>\<^verbatim>\<open>std::move_backward(first, last, d_last)\<close>: move assignment, last to first.\<close>

definition move_backward ::
  "'a elem_type \<Rightarrow> addr option \<Rightarrow> nat \<Rightarrow> nat \<Rightarrow> nat \<Rightarrow> 'a mem \<Rightarrow> (fault + unit) \<times> 'a mem" where
  "move_backward T p first lst d_last m =
     (if lst < first then (Inl (Undefined BadPosition), m)
      else (case steps (\<lambda>k. assign_at T MoveAssign (At p (lst - Suc k)) p (d_last - Suc k)) 0 (lst - first) m of
              (r, _, m') \<Rightarrow> (r, m')))"

section \<open>RawMemory\<close>

record RawMemory =
  buffer :: "addr option"
  capacity :: nat

text \<open>\<^verbatim>\<open>Allocate(n)\<close>: \<^verbatim>\<open>n != 0 ? operator new(n * sizeof(T)) : nullptr\<close>.\<close>

definition Allocate :: "nat \<Rightarrow> 'a mem \<Rightarrow> addr option \<times> 'a mem" where
  "Allocate n m =
     (if n \<noteq> 0
      then (Some (next_block m),
            m\<lparr>next_block := Suc (next_block m),
              block_size := (block_size m)(next_block m := n),
              released := (released m)(next_block m := False),
              cell := (cell m)(next_block m := (\<lambda>_. None))\<rparr>)
      else (None, m))"

text \<open>
  \<^verbatim>\<open>Deallocate(buf)\<close> is \<^verbatim>\<open>operator delete(buf)\<close>: nothing for \<^verbatim>\<open>nullptr\<close>, undefined for a
  pointer that \<^verbatim>\<open>operator new\<close> did not return or that has been released before.
\<close>

definition Deallocate :: "addr option \<Rightarrow> 'a mem \<Rightarrow> (fault + unit) \<times> 'a mem" where
  "Deallocate buf m =
     (case buf of
        None \<Rightarrow> (Inr (), m)
      | Some a \<Rightarrow>
          if next_block m \<le> a then (Inl (Undefined BadPointer), m)
          else if released m a then (Inl (Undefined DoubleFree), m)
          else (Inr (), m\<lparr>released := (released m)(a := True)\<rparr>))"

definition RawMemory_default :: RawMemory where
  "RawMemory_default = \<lparr>buffer = None, capacity = 0\<rparr>"

text \<open>\<^verbatim>\<open>explicit RawMemory(size_t capacity)\<close> and \<^verbatim>\<open>~RawMemory()\<close>.\<close>

definition RawMemory_new :: "nat \<Rightarrow> 'a mem \<Rightarrow> RawMemory \<times> 'a mem" where
  "RawMemory_new n m = (case Allocate n m of (p, m') \<Rightarrow> (\<lparr>buffer = p, capacity = n\<rparr>, m'))"

definition RawMemory_delete :: "RawMemory \<Rightarrow> 'a mem \<Rightarrow> (fault + unit) \<times> 'a mem" where
  "RawMemory_delete r m = Deallocate (buffer r) m"

text \<open>\<^verbatim>\<open>operator+\<close> and \<^verbatim>\<open>operator[]\<close> with their assertions; both give the address of a cell.\<close>

definition RawMemory_plus :: "RawMemory \<Rightarrow> nat \<Rightarrow> fault + addr option \<times> nat" where
  "RawMemory_plus r offset = (if offset \<le> capacity r then Inr (buffer r, offset) else Inl AssertFailed)"

definition RawMemory_index :: "RawMemory \<Rightarrow> nat \<Rightarrow> fault + addr option \<times> nat" where
  "RawMemory_index r index = (if index < capacity r then Inr (buffer r, index) else Inl AssertFailed)"

definition RawMemory_Swap :: "RawMemory \<Rightarrow> RawMemory \<Rightarrow> RawMemory \<times> RawMemory" where
  "RawMemory_Swap this other = (other, this)"

definition GetAddress :: "RawMemory \<Rightarrow> addr option" where
  "GetAddress r = buffer r"

definition Capacity :: "RawMemory \<Rightarrow> nat" where
  "Capacity r = capacity r"

text \<open>
  The move constructor and the move assignment take a reference to another RawMemory
  object, which may be the object itself. The objects are therefore kept in a store and
  the two operations are given the names of the objects.
\<close>

record 'a raw_world =
  raw_objs :: "nat \<Rightarrow> RawMemory"
  raw_mem :: "'a mem"

text \<open>\<^verbatim>\<open>x = std::exchange(rhs.buffer_, nullptr)\<close> and \<^verbatim>\<open>x = std::exchange(rhs.capacity_, 0)\<close>.\<close>

definition exchange_buffer ::
  "nat \<Rightarrow> addr option \<Rightarrow> (nat \<Rightarrow> RawMemory) \<Rightarrow> addr option \<times> (nat \<Rightarrow> RawMemory)" where
  "exchange_buffer obj new_value objs = (buffer (objs obj), objs(obj := (objs obj)\<lparr>buffer := new_value\<rparr>))"

definition exchange_capacity ::
  "nat \<Rightarrow> nat \<Rightarrow> (nat \<Rightarrow> RawMemory) \<Rightarrow> nat \<times> (nat \<Rightarrow> RawMemory)" where
  "exchange_capacity obj new_value objs = (capacity (objs obj), objs(obj := (objs obj)\<lparr>capacity := new_value\<rparr>))"

definition RawMemory_move_assign :: "nat \<Rightarrow> nat \<Rightarrow> 'a raw_world \<Rightarrow> (fault + unit) \<times> 'a raw_world" where
  "RawMemory_move_assign this rhs w =
     (case Deallocate (buffer (raw_objs w this)) (raw_mem w) of
        (Inl f, m') \<Rightarrow> (Inl f, w\<lparr>raw_mem := m'\<rparr>)
      | (Inr _, m') \<Rightarrow>
          (case exchange_buffer rhs None (raw_objs w) of
             (b, objs1) \<Rightarrow>
               (let objs2 = objs1(this := (objs1 this)\<lparr>buffer := b\<rparr>) in
                (case exchange_capacity rhs 0 objs2 of
                   (c, objs3) \<Rightarrow>
                     (Inr (), \<lparr>raw_objs = objs3(this := (objs3 this)\<lparr>capacity := c\<rparr>), raw_mem = m'\<rparr>)))))"

text \<open>
  The move constructor runs the same statements on a new object, whose members start
  from their default initialisers (\<^verbatim>\<open>nullptr\<close> and \<open>0\<close>).
\<close>

definition RawMemory_move_ctor :: "nat \<Rightarrow> nat \<Rightarrow> 'a raw_world \<Rightarrow> (fault + unit) \<times> 'a raw_world" where
  "RawMemory_move_ctor this other w =
     RawMemory_move_assign this other (w\<lparr>raw_objs := (raw_objs w)(this := RawMemory_default)\<rparr>)"

definition RawMemory_ctor :: "nat \<Rightarrow> nat \<Rightarrow> 'a raw_world \<Rightarrow> 'a raw_world" where
  "RawMemory_ctor this n w =
     (case RawMemory_new n (raw_mem w) of
        (r, m') \<Rightarrow> \<lparr>raw_objs = (raw_objs w)(this := r), raw_mem = m'\<rparr>)"

definition RawMemory_dtor :: "nat \<Rightarrow> 'a raw_world \<Rightarrow> (fault + unit) \<times> 'a raw_world" where
  "RawMemory_dtor this w =
     (case RawMemory_delete (raw_objs w this) (raw_mem w) of (r, m') \<Rightarrow> (r, w\<lparr>raw_mem := m'\<rparr>))"

definition empty_raw_world :: "'a raw_world" where
  "empty_raw_world = \<lparr>raw_objs = (\<lambda>_. RawMemory_default), raw_mem = empty_mem\<rparr>"

section \<open>Vector\<close>

record Vector =
  data :: RawMemory
  vsize :: nat

definition Vector_default :: Vector where
  "Vector_default = \<lparr>data = RawMemory_default, vsize = 0\<rparr>"

definition Size :: "Vector \<Rightarrow> nat" where
  "Size v = vsize v"

definition Vector_Capacity :: "Vector \<Rightarrow> nat" where
  "Vector_Capacity v = Capacity (data v)"

text \<open>
  When an exception leaves the scope of a local RawMemory, the destructor of the local
  runs before the exception reaches the caller.
\<close>

definition unwind :: "fault \<Rightarrow> RawMemory \<Rightarrow> 'a mem \<Rightarrow> fault \<times> 'a mem" where
  "unwind f r m =
     (case f of
        Thrown k \<Rightarrow> (case RawMemory_delete r m of (Inl g, m') \<Rightarrow> (g, m') | (Inr _, m') \<Rightarrow> (f, m'))
      | _ \<Rightarrow> (f, m))"

text \<open>\<^verbatim>\<open>Vector(size_t size)\<close>, \<^verbatim>\<open>Vector(const Vector&)\<close> and \<^verbatim>\<open>~Vector()\<close>, on the value of the object.\<close>

definition Vector_new :: "'a elem_type \<Rightarrow> nat \<Rightarrow> 'a mem \<Rightarrow> (fault + Vector) \<times> 'a mem" where
  "Vector_new T n m =
     (case RawMemory_new n m of
        (d, m1) \<Rightarrow>
          (case uninitialized_value_construct_n T (GetAddress d) 0 n m1 of
             (Inl f, m2) \<Rightarrow> (case unwind f d m2 of (g, m3) \<Rightarrow> (Inl g, m3))
           | (Inr _, m2) \<Rightarrow> (Inr \<lparr>data = d, vsize = n\<rparr>, m2)))"

definition Vector_copy :: "'a elem_type \<Rightarrow> Vector \<Rightarrow> 'a mem \<Rightarrow> (fault + Vector) \<times> 'a mem" where
  "Vector_copy T other m =
     (case RawMemory_new (vsize other) m of
        (d, m1) \<Rightarrow>
          (case uninitialized_copy_n T (GetAddress (data other)) 0 (vsize other) (GetAddress d) 0 m1 of
             (Inl f, m2) \<Rightarrow> (case unwind f d m2 of (g, m3) \<Rightarrow> (Inl g, m3))
           | (Inr _, m2) \<Rightarrow> (Inr \<lparr>data = d, vsize = vsize other\<rparr>, m2)))"

definition Vector_delete :: "Vector \<Rightarrow> 'a mem \<Rightarrow> (fault + unit) \<times> 'a mem" where
  "Vector_delete v m =
     (case destroy_n (GetAddress (data v)) 0 (vsize v) m of
        (Inl f, m1) \<Rightarrow> (Inl f, m1)
      | (Inr _, m1) \<Rightarrow> RawMemory_delete (data v) m1)"

definition swap_vectors :: "Vector \<Rightarrow> Vector \<Rightarrow> Vector \<times> Vector" where
  "swap_vectors this other =
     (case RawMemory_Swap (data this) (data other) of
        (d1, d2) \<Rightarrow> (\<lparr>data = d1, vsize = vsize other\<rparr>, \<lparr>data = d2, vsize = vsize this\<rparr>))"

text \<open>
  The member functions that work on one vector take the value of the object and return
  it with the outcome, also when the call does not return normally.
\<close>

text \<open>
  The end of every reallocation: \<^verbatim>\<open>std::destroy_n(data_.GetAddress(), size_);\<close>
  \<^verbatim>\<open>data_.Swap(new_data);\<close> and, at the end of its scope, the destructor of the local
  block, which by then holds the old storage.
\<close>

definition replace_block ::
  "Vector \<Rightarrow> RawMemory \<Rightarrow> 'a mem \<Rightarrow> (fault + unit) \<times> Vector \<times> 'a mem" where
  "replace_block v new_data m =
     (case destroy_n (GetAddress (data v)) 0 (vsize v) m of
        (Inl f, m1) \<Rightarrow> (Inl f, v, m1)
      | (Inr _, m1) \<Rightarrow>
          (case RawMemory_Swap (data v) new_data of
             (d, old) \<Rightarrow>
               (case RawMemory_delete old m1 of
                  (Inl f, m2) \<Rightarrow> (Inl f, v\<lparr>data := d\<rparr>, m2)
                | (Inr _, m2) \<Rightarrow> (Inr (), v\<lparr>data := d\<rparr>, m2))))"

definition Reserve ::
  "'a elem_type \<Rightarrow> nat \<Rightarrow> Vector \<Rightarrow> 'a mem \<Rightarrow> (fault + unit) \<times> Vector \<times> 'a mem" where
  "Reserve T new_capacity v m =
     (if new_capacity \<le> Capacity (data v) then (Inr (), v, m)
      else
        (case RawMemory_new new_capacity m of
           (new_data, m1) \<Rightarrow>
             (case (if nothrow_move_constructible T \<or> \<not> copy_constructible T
                    then uninitialized_move_n T (GetAddress (data v)) 0 (vsize v) (GetAddress new_data) 0 m1
                    else uninitialized_copy_n T (GetAddress (data v)) 0 (vsize v) (GetAddress new_data) 0 m1) of
                (Inl f, m2) \<Rightarrow> (case unwind f new_data m2 of (g, m3) \<Rightarrow> (Inl g, v, m3))
              | (Inr _, m2) \<Rightarrow> replace_block v new_data m2)))"

definition Resize ::
  "'a elem_type \<Rightarrow> nat \<Rightarrow> Vector \<Rightarrow> 'a mem \<Rightarrow> (fault + unit) \<times> Vector \<times> 'a mem" where
  "Resize T new_size v m =
     (if new_size = vsize v then (Inr (), v, m)
      else if new_size < vsize v then
        (case destroy_n (GetAddress (data v)) new_size (vsize v - new_size) m of
           (Inl f, m1) \<Rightarrow> (Inl f, v, m1)
         | (Inr _, m1) \<Rightarrow> (Inr (), v\<lparr>vsize := new_size\<rparr>, m1))
      else
        (case Reserve T new_size v m of
           (Inl f, v1, m1) \<Rightarrow> (Inl f, v1, m1)
         | (Inr _, v1, m1) \<Rightarrow>
             (case uninitialized_value_construct_n T (GetAddress (data v1)) (vsize v1) (new_size - vsize v1) m1 of
                (Inl f, m2) \<Rightarrow> (Inl f, v1, m2)
              | (Inr _, m2) \<Rightarrow> (Inr (), v1\<lparr>vsize := new_size\<rparr>, m2))))"

definition PopBack :: "Vector \<Rightarrow> 'a mem \<Rightarrow> (fault + unit) \<times> Vector \<times> 'a mem" where
  "PopBack v m =
     (if vsize v \<noteq> 0 then
        (case destroy_at (GetAddress (data v)) (vsize v - 1) m of
           (Inl f, m1) \<Rightarrow> (Inl f, v, m1)
         | (Inr _, m1) \<Rightarrow> (Inr (), v\<lparr>vsize := vsize v - 1\<rparr>, m1))
      else (Inr (), v, m))"

text \<open>
  \<^verbatim>\<open>EmplaceBack\<close>: the branch \<^verbatim>\<open>size_ == Capacity()\<close>, the other branch, and then
  \<^verbatim>\<open>++size_; return data_[size_ - 1];\<close>. The reference returned is the address of the cell.
\<close>

definition EmplaceBack_grow ::
  "'a elem_type \<Rightarrow> 'a arg \<Rightarrow> Vector \<Rightarrow> 'a mem \<Rightarrow> (fault + unit) \<times> Vector \<times> 'a mem" where
  "EmplaceBack_grow T a v m =
     (case RawMemory_new (if vsize v = 0 then 1 else vsize v * 2) m of
        (new_data, m1) \<Rightarrow>
          (case RawMemory_plus new_data (vsize v) of
             Inl f \<Rightarrow> (case unwind f new_data m1 of (g, m2) \<Rightarrow> (Inl g, v, m2))
           | Inr (p, i) \<Rightarrow>
               (case construct_arg T a p i m1 of
                  (Inl f, m2) \<Rightarrow> (case unwind f new_data m2 of (g, m3) \<Rightarrow> (Inl g, v, m3))
                | (Inr _, m2) \<Rightarrow>
                    (case (if nothrow_move_constructible T \<or> \<not> copy_constructible T
                           then uninitialized_move_n T (GetAddress (data v)) 0 (vsize v) (GetAddress new_data) 0 m2
                           else uninitialized_copy_n T (GetAddress (data v)) 0 (vsize v) (GetAddress new_data) 0 m2) of
                       (Inl f, m3) \<Rightarrow> (case unwind f new_data m3 of (g, m4) \<Rightarrow> (Inl g, v, m4))
                     | (Inr _, m3) \<Rightarrow> replace_block v new_data m3))))"

definition EmplaceBack ::
  "'a elem_type \<Rightarrow> 'a arg \<Rightarrow> Vector \<Rightarrow> 'a mem \<Rightarrow> (fault + addr option \<times> nat) \<times> Vector \<times> 'a mem" where
  "EmplaceBack T a v m =
     (case
        (if vsize v = Vector_Capacity v then EmplaceBack_grow T a v m
         else
           (case construct_arg T a (GetAddress (data v)) (vsize v) m of
              (Inl f, m1) \<Rightarrow> (Inl f, v, m1)
            | (Inr _, m1) \<Rightarrow> (Inr (), v, m1))) of
        (Inl f, v1, m1) \<Rightarrow> (Inl f, v1, m1)
      | (Inr _, v1, m1) \<Rightarrow>
          (let v2 = v1\<lparr>vsize := vsize v1 + 1\<rparr> in
           (case RawMemory_index (data v2) (vsize v2 - 1) of
              Inl f \<Rightarrow> (Inl f, v2, m1)
            | Inr ptr \<Rightarrow> (Inr ptr, v2, m1))))"

definition PushBack ::
  "'a elem_type \<Rightarrow> 'a arg \<Rightarrow> Vector \<Rightarrow> 'a mem \<Rightarrow> (fault + unit) \<times> Vector \<times> 'a mem" where
  "PushBack T a v m =
     (case EmplaceBack T a v m of
        (Inl f, v1, m1) \<Rightarrow> (Inl f, v1, m1)
      | (Inr _, v1, m1) \<Rightarrow> (Inr (), v1, m1))"

text \<open>
  \<^verbatim>\<open>data_[index] = T(std::forward<Args>(args)...)\<close>: a temporary is constructed from the
  argument, move-assigned to the cell and destroyed.
\<close>

definition assign_temp ::
  "'a elem_type \<Rightarrow> 'a arg \<Rightarrow> RawMemory \<Rightarrow> nat \<Rightarrow> 'a mem \<Rightarrow> (fault + unit) \<times> 'a mem" where
  "assign_temp T a d index m =
     (case (case a of ConstRef r \<Rightarrow> (CopyCtor, r) | RvalueRef r \<Rightarrow> (MoveCtor, r)) of
        (k, r) \<Rightarrow>
          (case transfer T k r m of
             (Inl f, m1) \<Rightarrow> (Inl f, m1)
           | (Inr x, m1) \<Rightarrow>
               (let m2 = log (EvOp k (loc_of r) Temp) m1 in
                (case RawMemory_index d index of
                   Inl f \<Rightarrow> (Inl f, m2)
                 | Inr (p, i) \<Rightarrow>
                     (case assign_at T MoveAssign (Tmp x) p i m2 of
                        (Inl (Thrown e), m3) \<Rightarrow> (Inl (Thrown e), log (EvDestroy Temp) m3)
                      | (Inl f, m3) \<Rightarrow> (Inl f, m3)
                      | (Inr _, m3) \<Rightarrow> (Inr (), log (EvDestroy Temp) m3))))))"

text \<open>
  \<^verbatim>\<open>Emplace\<close> takes the position as the offset of \<^verbatim>\<open>pos\<close> from \<^verbatim>\<open>cbegin()\<close> and returns the
  iterator \<^verbatim>\<open>begin() + index\<close>. A position after \<^verbatim>\<open>cend()\<close> makes
  \<^verbatim>\<open>std::distance(pos, cend())\<close> negative and is undefined. The branch
  \<^verbatim>\<open>size_ == data_.Capacity()\<close> is \<open>Emplace_grow\<close>, with its \<^verbatim>\<open>try\<close> block as \<open>Emplace_transplant\<close>;
  the branch \<^verbatim>\<open>size_ != index\<close> without reallocation is \<open>Emplace_shift\<close>.
\<close>

definition Emplace_transplant ::
  "'a elem_type \<Rightarrow> nat \<Rightarrow> nat \<Rightarrow> Vector \<Rightarrow> RawMemory \<Rightarrow> 'a mem \<Rightarrow> (fault + unit) \<times> 'a mem" where
  "Emplace_transplant T count_before count_after v tmp m =
     (if nothrow_move_constructible T \<or> \<not> copy_constructible T
      then (case uninitialized_move_n T (GetAddress (data v)) 0 count_before (GetAddress tmp) 0 m of
              (Inl f, m1) \<Rightarrow> (Inl f, m1)
            | (Inr _, m1) \<Rightarrow>
                uninitialized_move_n T (GetAddress (data v)) count_before count_after
                  (GetAddress tmp) (count_before + 1) m1)
      else (case uninitialized_copy_n T (GetAddress (data v)) 0 count_before (GetAddress tmp) 0 m of
              (Inl f, m1) \<Rightarrow> (Inl f, m1)
            | (Inr _, m1) \<Rightarrow>
                uninitialized_copy_n T (GetAddress (data v)) count_before count_after
                  (GetAddress tmp) (count_before + 1) m1))"

definition Emplace_grow ::
  "'a elem_type \<Rightarrow> nat \<Rightarrow> 'a arg \<Rightarrow> Vector \<Rightarrow> 'a mem \<Rightarrow> (fault + unit) \<times> Vector \<times> 'a mem" where
  "Emplace_grow T index a v m =
     (let count_before = index; count_after = vsize v - index in
      (case RawMemory_new (if vsize v = 0 then 1 else vsize v * 2) m of
         (tmp, m1) \<Rightarrow>
           (case construct_arg T a (GetAddress tmp) index m1 of
              (Inl f, m2) \<Rightarrow> (case unwind f tmp m2 of (g, m3) \<Rightarrow> (Inl g, v, m3))
            | (Inr _, m2) \<Rightarrow>
                (case Emplace_transplant T count_before count_after v tmp m2 of
                   (Inl (Thrown e), m3) \<Rightarrow>
                     (case destroy_n (GetAddress tmp) 0 (index + 1) m3 of
                        (Inl f, m4) \<Rightarrow> (Inl f, v, m4)
                      | (Inr _, m4) \<Rightarrow> (case unwind (Thrown e) tmp m4 of (g, m5) \<Rightarrow> (Inl g, v, m5)))
                 | (Inl f, m3) \<Rightarrow> (Inl f, v, m3)
                 | (Inr _, m3) \<Rightarrow> replace_block v tmp m3))))"

definition Emplace_shift ::
  "'a elem_type \<Rightarrow> nat \<Rightarrow> 'a arg \<Rightarrow> Vector \<Rightarrow> 'a mem \<Rightarrow> (fault + unit) \<times> Vector \<times> 'a mem" where
  "Emplace_shift T index a v m =
     (case construct_at T MoveCtor (At (GetAddress (data v)) (vsize v - 1)) (GetAddress (data v)) (vsize v) m of
        (Inl f, m1) \<Rightarrow> (Inl f, v, m1)
      | (Inr _, m1) \<Rightarrow>
          (case move_backward T (GetAddress (data v)) index (vsize v - 1) (vsize v) m1 of
             (Inl f, m2) \<Rightarrow> (Inl f, v, m2)
           | (Inr _, m2) \<Rightarrow>
               (case assign_temp T a (data v) index m2 of
                  (Inl f, m3) \<Rightarrow> (Inl f, v, m3)
                | (Inr _, m3) \<Rightarrow> (Inr (), v, m3))))"

definition Emplace ::
  "'a elem_type \<Rightarrow> nat \<Rightarrow> 'a arg \<Rightarrow> Vector \<Rightarrow> 'a mem \<Rightarrow> (fault + addr option \<times> nat) \<times> Vector \<times> 'a mem" where
  "Emplace T index a v m =
     (if vsize v < index then (Inl (Undefined BadPosition), v, m)
      else
        (case
           (if vsize v = Capacity (data v) then Emplace_grow T index a v m
            else if vsize v \<noteq> index then Emplace_shift T index a v m
            else
              (case construct_arg T a (GetAddress (data v)) index m of
                 (Inl f, m1) \<Rightarrow> (Inl f, v, m1)
               | (Inr _, m1) \<Rightarrow> (Inr (), v, m1))) of
           (Inl f, v1, m1) \<Rightarrow> (Inl f, v1, m1)
         | (Inr _, v1, m1) \<Rightarrow> (Inr (GetAddress (data v1), index), v1\<lparr>vsize := vsize v1 + 1\<rparr>, m1)))"

definition Insert ::
  "'a elem_type \<Rightarrow> nat \<Rightarrow> 'a arg \<Rightarrow> Vector \<Rightarrow> 'a mem \<Rightarrow> (fault + addr option \<times> nat) \<times> Vector \<times> 'a mem" where
  "Insert T index a v m = Emplace T index a v m"

text \<open>\<^verbatim>\<open>Erase\<close> takes the position as the offset of \<^verbatim>\<open>pos\<close> from \<^verbatim>\<open>begin()\<close>.\<close>

definition Erase ::
  "'a elem_type \<Rightarrow> nat \<Rightarrow> Vector \<Rightarrow> 'a mem \<Rightarrow> (fault + addr option \<times> nat) \<times> Vector \<times> 'a mem" where
  "Erase T index v m =
     (if \<not> 0 < vsize v then (Inl AssertFailed, v, m)
      else
        (case move_range T (GetAddress (data v)) (index + 1) (vsize v) index m of
           (Inl f, m1) \<Rightarrow> (Inl f, v, m1)
         | (Inr _, m1) \<Rightarrow>
             (case RawMemory_index (data v) (vsize v - 1) of
                Inl f \<Rightarrow> (Inl f, v, m1)
              | Inr (p, i) \<Rightarrow>
                  (case destroy_at p i m1 of
                     (Inl f, m2) \<Rightarrow> (Inl f, v, m2)
                   | (Inr _, m2) \<Rightarrow> (Inr (GetAddress (data v), index), v\<lparr>vsize := vsize v - 1\<rparr>, m2)))))"

text \<open>\<^verbatim>\<open>operator[]\<close> of the vector, with its assertion.\<close>

definition Vector_index :: "Vector \<Rightarrow> nat \<Rightarrow> fault + addr option \<times> nat" where
  "Vector_index v index = (if index < vsize v then RawMemory_index (data v) index else Inl AssertFailed)"

subsection \<open>Vector objects and the operations on two of them\<close>

text \<open>
  The copy and move operations and \<^verbatim>\<open>Swap\<close> take a reference to another vector, which may
  be the vector itself (\<^verbatim>\<open>this != &rhs\<close> is asked in the source). Vector objects are kept
  in a store, and every operation is given the names of its objects.
\<close>

record 'a world =
  vectors :: "nat \<Rightarrow> Vector"
  memory :: "'a mem"

definition empty_world :: "'a world" where
  "empty_world = \<lparr>vectors = (\<lambda>_. Vector_default), memory = empty_mem\<rparr>"

definition on_vector ::
  "(Vector \<Rightarrow> 'a mem \<Rightarrow> (fault + 'r) \<times> Vector \<times> 'a mem) \<Rightarrow> nat \<Rightarrow> 'a world \<Rightarrow> (fault + 'r) \<times> 'a world" where
  "on_vector f this w =
     (case f (vectors w this) (memory w) of
        (r, v', m') \<Rightarrow> (r, \<lparr>vectors = (vectors w)(this := v'), memory = m'\<rparr>))"

definition Vector_Swap :: "nat \<Rightarrow> nat \<Rightarrow> 'a world \<Rightarrow> 'a world" where
  "Vector_Swap this other w =
     (case swap_vectors (vectors w this) (vectors w other) of
        (a, b) \<Rightarrow> w\<lparr>vectors := ((vectors w)(this := a))(other := b)\<rparr>)"

definition Vector_default_ctor :: "nat \<Rightarrow> 'a world \<Rightarrow> 'a world" where
  "Vector_default_ctor this w = w\<lparr>vectors := (vectors w)(this := Vector_default)\<rparr>"

definition Vector_size_ctor :: "'a elem_type \<Rightarrow> nat \<Rightarrow> nat \<Rightarrow> 'a world \<Rightarrow> (fault + unit) \<times> 'a world" where
  "Vector_size_ctor T this n w =
     (case Vector_new T n (memory w) of
        (Inl f, m') \<Rightarrow> (Inl f, w\<lparr>memory := m'\<rparr>)
      | (Inr v, m') \<Rightarrow> (Inr (), \<lparr>vectors = (vectors w)(this := v), memory = m'\<rparr>))"

definition Vector_copy_ctor :: "'a elem_type \<Rightarrow> nat \<Rightarrow> nat \<Rightarrow> 'a world \<Rightarrow> (fault + unit) \<times> 'a world" where
  "Vector_copy_ctor T this other w =
     (case Vector_copy T (vectors w other) (memory w) of
        (Inl f, m') \<Rightarrow> (Inl f, w\<lparr>memory := m'\<rparr>)
      | (Inr v, m') \<Rightarrow> (Inr (), \<lparr>vectors = (vectors w)(this := v), memory = m'\<rparr>))"

text \<open>\<^verbatim>\<open>Vector(Vector&& other) noexcept { Swap(other); }\<close> on a new, default-initialised object.\<close>

definition Vector_move_ctor :: "nat \<Rightarrow> nat \<Rightarrow> 'a world \<Rightarrow> 'a world" where
  "Vector_move_ctor this other w = Vector_Swap this other (Vector_default_ctor this w)"

definition Vector_dtor :: "nat \<Rightarrow> 'a world \<Rightarrow> (fault + unit) \<times> 'a world" where
  "Vector_dtor this w =
     (case Vector_delete (vectors w this) (memory w) of (r, m') \<Rightarrow> (r, w\<lparr>memory := m'\<rparr>))"

definition Vector_copy_assign :: "'a elem_type \<Rightarrow> nat \<Rightarrow> nat \<Rightarrow> 'a world \<Rightarrow> (fault + unit) \<times> 'a world" where
  "Vector_copy_assign T this rhs w =
     (if this \<noteq> rhs then
        (let v = vectors w this; r = vectors w rhs in
         if Capacity (data v) < vsize r then
           (case Vector_copy T r (memory w) of
              (Inl f, m1) \<Rightarrow> (Inl f, w\<lparr>memory := m1\<rparr>)
            | (Inr rhs_copy, m1) \<Rightarrow>
                (case swap_vectors v rhs_copy of
                   (v', rhs_copy') \<Rightarrow>
                     (case Vector_delete rhs_copy' m1 of
                        (res, m2) \<Rightarrow> (res, \<lparr>vectors = (vectors w)(this := v'), memory = m2\<rparr>))))
         else
           (let copy_pos = (if vsize r < vsize v then vsize r else vsize v) in
            (case copy_n T (GetAddress (data r)) 0 copy_pos (GetAddress (data v)) 0 (memory w) of
               (Inl f, m1) \<Rightarrow> (Inl f, w\<lparr>memory := m1\<rparr>)
             | (Inr _, m1) \<Rightarrow>
                 (case (if vsize r < vsize v
                        then destroy_n (GetAddress (data v)) copy_pos (vsize v - vsize r) m1
                        else uninitialized_copy_n T (GetAddress (data r)) (vsize v) (vsize r - vsize v)
                               (GetAddress (data v)) copy_pos m1) of
                    (Inl f, m2) \<Rightarrow> (Inl f, w\<lparr>memory := m2\<rparr>)
                  | (Inr _, m2) \<Rightarrow> (Inr (), \<lparr>vectors = (vectors w)(this := v\<lparr>vsize := vsize r\<rparr>), memory = m2\<rparr>)))))
      else (Inr (), w))"

text \<open>\<^verbatim>\<open>Vector& operator=(Vector&& rhs) noexcept { Swap(rhs); return *this; }\<close>\<close>

definition Vector_move_assign :: "nat \<Rightarrow> nat \<Rightarrow> 'a world \<Rightarrow> 'a world" where
  "Vector_move_assign this rhs w = Vector_Swap this rhs w"

text \<open>The elements of a vector: the values of the objects in the cells \<open>0 \<le> i < size\<close>.\<close>

definition elements :: "'a mem \<Rightarrow> Vector \<Rightarrow> 'a option list" where
  "elements m v =
     (case buffer (data v) of
        None \<Rightarrow> []
      | Some a \<Rightarrow> map (cell m a) [0..<vsize v])"

section \<open>Notions used in the statements and proofs\<close>

definition in_block :: "'a mem \<Rightarrow> addr \<Rightarrow> nat \<Rightarrow> bool" where
  "in_block m a i = (a < next_block m \<and> \<not> released m a \<and> i < block_size m a)"

definition never_throws :: "'a elem_type \<Rightarrow> bool" where
  "never_throws T = (\<forall>tr k x. \<not> raises T tr k x)"

definition room :: "'a mem \<Rightarrow> addr option \<Rightarrow> nat \<Rightarrow> nat \<Rightarrow> bool" where
  "room m p i n = (n = 0 \<or> (\<exists>a. p = Some a \<and> a < next_block m \<and> \<not> released m a \<and> i + n \<le> block_size m a))"

definition live :: "'a mem \<Rightarrow> addr option \<Rightarrow> nat \<Rightarrow> nat \<Rightarrow> bool" where
  "live m p i n = (\<forall>q. i \<le> q \<and> q < i + n \<longrightarrow> (\<exists>a x. p = Some a \<and> cell m a q = Some x))"

definition raw_ok :: "'a mem \<Rightarrow> RawMemory \<Rightarrow> bool" where
  "raw_ok m r =
     (case buffer r of
        None \<Rightarrow> capacity r = 0
      | Some a \<Rightarrow> a < next_block m \<and> \<not> released m a \<and> block_size m a = capacity r)"

definition vec_ok :: "'a mem \<Rightarrow> Vector \<Rightarrow> bool" where
  "vec_ok m v = (vsize v \<le> capacity (data v) \<and> raw_ok m (data v) \<and> live m (buffer (data v)) 0 (vsize v))"

definition transplanted ::
  "'a elem_type \<Rightarrow> op_kind \<Rightarrow> addr option \<Rightarrow> nat \<Rightarrow> addr option \<Rightarrow> nat \<Rightarrow> 'a mem \<Rightarrow> nat \<Rightarrow> 'a mem \<Rightarrow> bool" where
  "transplanted T k sp si dp di m j s =
     (next_block s = next_block m \<and> block_size s = block_size m \<and> released s = released m \<and>
      (\<forall>c q. cell s c q =
         (if Some c = dp \<and> di \<le> q \<and> q < di + j then cell m (the sp) (si + (q - di))
          else if Some c = sp \<and> k = MoveCtor \<and> si \<le> q \<and> q < si + j then map_option (moved_from T) (cell m c q)
          else cell m c q)) \<and>
      trace s = trace m @ map (\<lambda>t. EvOp k (Cell sp (si + t)) (Cell dp (di + t))) [0..<j])"

definition destroyed :: "addr option \<Rightarrow> nat \<Rightarrow> 'a mem \<Rightarrow> nat \<Rightarrow> 'a mem \<Rightarrow> bool" where
  "destroyed p i m j s =
     (next_block s = next_block m \<and> block_size s = block_size m \<and> released s = released m \<and>
      (\<forall>c q. cell s c q = (if Some c = p \<and> i \<le> q \<and> q < i + j then None else cell m c q)) \<and>
      trace s = trace m @ map (\<lambda>t. EvDestroy (Cell p (i + t))) [0..<j])"

text \<open>
  Element types and worlds for the examples: \<open>plain\<close> behaves like \<^verbatim>\<open>int\<close> (no operation
  throws, a moved-from object keeps its value).
\<close>

definition plain :: "int elem_type" where
  "plain = \<lparr>nothrow_move_constructible = True, copy_constructible = True,
     throws = (\<lambda>_ _ _. False), moved_from = (\<lambda>x. x), default_value = 0\<rparr>"

text \<open>A RawMemory object \<open>0\<close> that owns a block of two cells.\<close>

definition self_move_world :: "int raw_world" where
  "self_move_world = RawMemory_ctor 0 2 empty_raw_world"

text \<open>Two vectors: object \<open>0\<close> with one element and object \<open>1\<close> with two.\<close>

definition two_vectors :: "int world" where
  "two_vectors = snd (Vector_size_ctor plain 1 2 (snd (Vector_size_ctor plain 0 1 empty_world)))"

text \<open>
  The public operations as calls on named vector objects, and the world after a call and
  after a sequence of calls. The world of a call that ends in an exception, a failed
  assertion or undefined behaviour is the world at that point.
\<close>

datatype 'a call =
    Call_default_ctor nat
  | Call_size_ctor nat nat
  | Call_copy_ctor nat nat
  | Call_move_ctor nat nat
  | Call_copy_assign nat nat
  | Call_move_assign nat nat
  | Call_Swap nat nat
  | Call_Reserve nat nat
  | Call_Resize nat nat
  | Call_PushBack nat "'a arg"
  | Call_PopBack nat
  | Call_EmplaceBack nat "'a arg"
  | Call_Emplace nat nat "'a arg"
  | Call_Insert nat nat "'a arg"
  | Call_Erase nat nat

fun exec :: "'a elem_type \<Rightarrow> 'a call \<Rightarrow> 'a world \<Rightarrow> 'a world" where
  "exec T (Call_default_ctor this) w = Vector_default_ctor this w"
| "exec T (Call_size_ctor this n) w = snd (Vector_size_ctor T this n w)"
| "exec T (Call_copy_ctor this other) w = snd (Vector_copy_ctor T this other w)"
| "exec T (Call_move_ctor this other) w = Vector_move_ctor this other w"
| "exec T (Call_copy_assign this rhs) w = snd (Vector_copy_assign T this rhs w)"
| "exec T (Call_move_assign this rhs) w = Vector_move_assign this rhs w"
| "exec T (Call_Swap this other) w = Vector_Swap this other w"
| "exec T (Call_Reserve this n) w = snd (on_vector (Reserve T n) this w)"
| "exec T (Call_Resize this n) w = snd (on_vector (Resize T n) this w)"
| "exec T (Call_PushBack this a) w = snd (on_vector (PushBack T a) this w)"
| "exec T (Call_PopBack this) w = snd (on_vector PopBack this w)"
| "exec T (Call_EmplaceBack this a) w = snd (on_vector (EmplaceBack T a) this w)"
| "exec T (Call_Emplace this index a) w = snd (on_vector (Emplace T index a) this w)"
| "exec T (Call_Insert this index a) w = snd (on_vector (Insert T index a) this w)"
| "exec T (Call_Erase this index) w = snd (on_vector (Erase T index) this w)"

fun run :: "'a elem_type \<Rightarrow> 'a call list \<Rightarrow> 'a world \<Rightarrow> 'a world" where
  "run T [] w = w"
| "run T (c # cs) w = run T cs (exec T c w)"

text \<open>The size of a vector does not exceed the capacity of its block.\<close>

definition fits :: "Vector \<Rightarrow> bool" where
  "fits v = (vsize v \<le> Vector_Capacity v)"

definition all_fit :: "'a world \<Rightarrow> bool" where
  "all_fit w = (\<forall>i. fits (vectors w i))"

text \<open>A sequence of \<^verbatim>\<open>PushBack\<close> calls on one vector, stopping at the first call that does not return.\<close>

fun push_all ::
  "'a elem_type \<Rightarrow> 'a arg list \<Rightarrow> Vector \<Rightarrow> 'a mem \<Rightarrow> (fault + unit) \<times> Vector \<times> 'a mem" where
  "push_all T [] v m = (Inr (), v, m)"
| "push_all T (a # as) v m =
     (case PushBack T a v m of
        (Inl f, v', m') \<Rightarrow> (Inl f, v', m')
      | (Inr _, v', m') \<Rightarrow> push_all T as v' m')"

text \<open>
  A counting element type: its copy constructor throws when exactly \<open>n\<close> objects have been
  copy-constructed before; its move constructor is not declared \<^verbatim>\<open>noexcept\<close>.
\<close>

definition copies :: "event list \<Rightarrow> nat" where
  "copies tr = length (filter (\<lambda>e. case e of EvOp k _ _ \<Rightarrow> k = CopyCtor | _ \<Rightarrow> False) tr)"

definition throwing_copy :: "nat \<Rightarrow> int elem_type" where
  "throwing_copy n = \<lparr>nothrow_move_constructible = False, copy_constructible = True,
     throws = (\<lambda>tr k x. k = CopyCtor \<and> copies tr = n), moved_from = (\<lambda>x. x), default_value = 0\<rparr>"

text \<open>The vector \<open>[1, 2]\<close> with capacity \<open>2\<close>, built by two calls of \<^verbatim>\<open>PushBack(T&&)\<close>.\<close>

definition full_pair :: "nat \<Rightarrow> Vector \<times> int mem" where
  "full_pair n = snd (push_all (throwing_copy n) [RvalueRef (Ext 1), RvalueRef (Ext 2)] Vector_default empty_mem)"

definition spare_triple :: "nat \<Rightarrow> Vector \<times> int mem" where
  "spare_triple n = snd (push_all (throwing_copy n) [RvalueRef (Ext 1), RvalueRef (Ext 2), RvalueRef (Ext 3)] Vector_default empty_mem)"

text \<open>
  \<open>kept n m m'\<close>: the blocks with an address below \<open>n\<close> are in \<open>m'\<close> as they are in \<open>m\<close>: same
  size, same cells, released or not as before.
\<close>

definition kept :: "nat \<Rightarrow> 'a mem \<Rightarrow> 'a mem \<Rightarrow> bool" where
  "kept n m m' =
     (next_block m \<le> next_block m' \<and>
      (\<forall>a<n. block_size m' a = block_size m a \<and> released m' a = released m a \<and> cell m' a = cell m a))"

text \<open>A fault that is not a C++ exception.\<close>

definition no_exception :: "fault \<Rightarrow> bool" where
  "no_exception f = (case f of Thrown _ \<Rightarrow> False | _ \<Rightarrow> True)"

text \<open>An argument that is not an rvalue reference to a cell of the memory.\<close>

definition keeps_source :: "'a arg \<Rightarrow> bool" where
  "keeps_source a = (case a of RvalueRef (At _ _) \<Rightarrow> False | _ \<Rightarrow> True)"

text \<open>
  An element type whose copy assignment throws when the source has the value \<open>x\<close>; its
  move constructor is declared \<^verbatim>\<open>noexcept\<close>.
\<close>

definition throwing_assign :: "int \<Rightarrow> int elem_type" where
  "throwing_assign x = \<lparr>nothrow_move_constructible = True, copy_constructible = True,
     throws = (\<lambda>tr k y. k = CopyAssign \<and> y = x), moved_from = (\<lambda>y. y), default_value = 0\<rparr>"

text \<open>The vectors \<open>0 = [1]\<close> and \<open>1 = [7, 8]\<close>, and the vectors \<open>0 = [1, 2]\<close> and \<open>1 = [7, 8]\<close>.\<close>

definition short_and_long :: "int elem_type \<Rightarrow> int world" where
  "short_and_long T = run T [Call_PushBack 0 (RvalueRef (Ext 1)),
     Call_PushBack 1 (RvalueRef (Ext 7)), Call_PushBack 1 (RvalueRef (Ext 8))] empty_world"

definition two_pairs :: "int elem_type \<Rightarrow> int world" where
  "two_pairs T = run T [Call_PushBack 0 (RvalueRef (Ext 1)), Call_PushBack 0 (RvalueRef (Ext 2)),
     Call_PushBack 1 (RvalueRef (Ext 7)), Call_PushBack 1 (RvalueRef (Ext 8))] empty_world"

text \<open>
  \<open>regrown v m nc idx x v' m'\<close>: the vector owns the new block \<open>next_block m\<close> of capacity
  \<open>nc\<close>, whose cells hold the old elements with \<open>x\<close> put in at the position \<open>idx\<close>.
\<close>

definition regrown :: "Vector \<Rightarrow> 'a mem \<Rightarrow> nat \<Rightarrow> nat \<Rightarrow> 'a option \<Rightarrow> Vector \<Rightarrow> 'a mem \<Rightarrow> bool" where
  "regrown v m nc idx x v' m' =
     (v' = v\<lparr>data := \<lparr>buffer = Some (next_block m), capacity = nc\<rparr>\<rparr> \<and>
      next_block m' = Suc (next_block m) \<and> block_size m' (next_block m) = nc \<and>
      \<not> released m' (next_block m) \<and>
      (\<forall>q. cell m' (next_block m) q =
         (if q < idx then cell m (the (buffer (data v))) q
          else if q = idx then x
          else if q \<le> vsize v then cell m (the (buffer (data v))) (q - 1)
          else None)))"

definition transplant_kind :: "'a elem_type \<Rightarrow> op_kind" where
  "transplant_kind T = (if nothrow_move_constructible T \<or> \<not> copy_constructible T then MoveCtor else CopyCtor)"

text \<open>An argument that refers to an object \<open>x\<close> of the caller's, and the constructor it selects.\<close>

definition outside :: "'a arg \<Rightarrow> 'a \<Rightarrow> bool" where
  "outside a x = (a = ConstRef (Ext x) \<or> a = RvalueRef (Ext x))"

definition arg_kind :: "'a arg \<Rightarrow> op_kind" where
  "arg_kind a = (case a of ConstRef _ \<Rightarrow> CopyCtor | RvalueRef _ \<Rightarrow> MoveCtor)"

text \<open>
  The cells of the block \<open>b\<close> after \<open>j\<close> steps of \<^verbatim>\<open>std::move_backward\<close> that shift the cells
  below \<open>hi\<close> one place to the right, and after \<open>j\<close> steps of \<^verbatim>\<open>std::move\<close> that shift the
  cells above \<open>lo\<close> one place to the left.
\<close>

definition shifted_right :: "'a elem_type \<Rightarrow> addr \<Rightarrow> nat \<Rightarrow> 'a mem \<Rightarrow> nat \<Rightarrow> 'a mem \<Rightarrow> bool" where
  "shifted_right T b hi m j s =
     (next_block s = next_block m \<and> block_size s = block_size m \<and> released s = released m \<and>
      (\<forall>c q. cell s c q =
         (if c = b \<and> hi - j < q \<and> q \<le> hi then cell m b (q - 1)
          else if c = b \<and> q = hi - j \<and> 0 < j then map_option (moved_from T) (cell m b q)
          else cell m c q)))"

definition shifted_left :: "'a elem_type \<Rightarrow> addr \<Rightarrow> nat \<Rightarrow> 'a mem \<Rightarrow> nat \<Rightarrow> 'a mem \<Rightarrow> bool" where
  "shifted_left T b lo m j s =
     (next_block s = next_block m \<and> block_size s = block_size m \<and> released s = released m \<and>
      (\<forall>c q. cell s c q =
         (if c = b \<and> lo \<le> q \<and> q < lo + j then cell m b (q + 1)
          else if c = b \<and> q = lo + j \<and> 0 < j then map_option (moved_from T) (cell m b q)
          else cell m c q)))"

text \<open>The capacity of a vector that was empty after \<open>n\<close> appends, by the doubling rule.\<close>

fun doubling :: "nat \<Rightarrow> nat" where
  "doubling 0 = 0"
| "doubling (Suc n) = (if n = doubling n then max 1 (2 * doubling n) else doubling n)"

text \<open>
  An element type with a copy constructor and a move constructor that is not declared
  \<^verbatim>\<open>noexcept\<close>, none of whose operations throws, and the full vector \<open>[1, 2]\<close> of that type.
\<close>

definition copy_only :: "int elem_type" where
  "copy_only = \<lparr>nothrow_move_constructible = False, copy_constructible = True,
     throws = (\<lambda>_ _ _. False), moved_from = (\<lambda>x. x), default_value = 0\<rparr>"

definition copied_pair :: "Vector \<times> int mem" where
  "copied_pair = snd (push_all copy_only [RvalueRef (Ext 1), RvalueRef (Ext 2)] Vector_default empty_mem)"

text \<open>
  The vector \<open>[1, 2, 3]\<close> with capacity \<open>4\<close> and the full vector \<open>[1, 2]\<close>, of the element type
  \<open>plain\<close>.
\<close>

definition spare_plain :: "Vector \<times> int mem" where
  "spare_plain = snd (push_all plain [ConstRef (Ext 1), ConstRef (Ext 2), ConstRef (Ext 3)] Vector_default empty_mem)"

definition full_plain :: "Vector \<times> int mem" where
  "full_plain = snd (push_all plain [ConstRef (Ext 1), ConstRef (Ext 2)] Vector_default empty_mem)"

section \<open>Memory and the loops of the standard algorithms\<close>

lemma put_fields [simp]:
  "next_block (put p i c m) = next_block m"
  "block_size (put p i c m) = block_size m"
  "released (put p i c m) = released m"
  "trace (put p i c m) = trace m"
  by (simp_all add: put_def split: option.splits)

lemma cell_put [simp]:
  "cell (put (Some a) i c m) b j = (if b = a \<and> j = i then c else cell m b j)"
  by (simp add: put_def)

lemma log_fields [simp]:
  "next_block (log e m) = next_block m"
  "block_size (log e m) = block_size m"
  "released (log e m) = released m"
  "cell (log e m) = cell m"
  "trace (log e m) = trace m @ [e]"
  by (simp_all add: log_def)

lemma in_block_put [simp]: "in_block (put p i c m) a j = in_block m a j"
  by (simp add: in_block_def)

lemma in_block_log [simp]: "in_block (log e m) a j = in_block m a j"
  by (simp add: in_block_def)

lemma slot_in_block: "in_block m a i \<Longrightarrow> slot m (Some a) i = Inr (cell m a i)"
  by (auto simp add: slot_def in_block_def)

lemma slot_Inr_iff: "(slot m p i = Inr c) = (\<exists>a. p = Some a \<and> in_block m a i \<and> c = cell m a i)"
  by (auto simp add: slot_def in_block_def split: option.splits)

text \<open>The primitive operations on valid cells.\<close>

lemma construct_at_cell:
  assumes "in_block m b j" "in_block m a i" "cell m a i = Some x"
  shows "construct_at T k (At (Some a) i) (Some b) j m =
     (if raises T (trace m) k x then (Inl (Thrown k), log (EvThrow k) m)
      else (Inr (), log (EvOp k (Cell (Some a) i) (Cell (Some b) j))
              (put (Some b) j (Some x)
                 (if k = MoveCtor \<or> k = MoveAssign then put (Some a) i (Some (moved_from T x)) m else m))))"
  using assms
  by (simp add: construct_at_def transfer_def load_def slot_in_block leave_moved_def loc_of_def)

lemma construct_at_ext:
  assumes "in_block m b j"
  shows "construct_at T k (Ext x) (Some b) j m =
     (if raises T (trace m) k x then (Inl (Thrown k), log (EvThrow k) m)
      else (Inr (), log (EvOp k Outside (Cell (Some b) j)) (put (Some b) j (Some x) m)))"
  using assms
  by (simp add: construct_at_def transfer_def load_def slot_in_block leave_moved_def loc_of_def)

lemma assign_at_cell:
  assumes "in_block m b j" "cell m b j = Some y" "in_block m a i" "cell m a i = Some x"
  shows "assign_at T k (At (Some a) i) (Some b) j m =
     (if raises T (trace m) k x then (Inl (Thrown k), log (EvThrow k) m)
      else (Inr (), log (EvOp k (Cell (Some a) i) (Cell (Some b) j))
              (put (Some b) j (Some x)
                 (if k = MoveCtor \<or> k = MoveAssign then put (Some a) i (Some (moved_from T x)) m else m))))"
  using assms
  by (simp add: assign_at_def transfer_def load_def slot_in_block leave_moved_def loc_of_def)

lemma assign_at_tmp:
  assumes "in_block m b j" "cell m b j = Some y"
  shows "assign_at T k (Tmp x) (Some b) j m =
     (if raises T (trace m) k x then (Inl (Thrown k), log (EvThrow k) m)
      else (Inr (), log (EvOp k Temp (Cell (Some b) j)) (put (Some b) j (Some x) m)))"
  using assms
  by (simp add: assign_at_def transfer_def load_def slot_in_block leave_moved_def loc_of_def)

lemma destroy_at_cell:
  assumes "in_block m a i" "cell m a i = Some x"
  shows "destroy_at (Some a) i m = (Inr (), log (EvDestroy (Cell (Some a) i)) (put (Some a) i None m))"
  using assms by (simp add: destroy_at_def slot_in_block)

text \<open>The rule for the loops: an invariant for the steps that return, a condition for a step that fails.\<close>

lemma steps_cases:
  assumes "I i m"
    and "\<And>j s. i \<le> j \<Longrightarrow> j < i + n \<Longrightarrow> I j s \<Longrightarrow>
           (case body j s of (Inr _, s') \<Rightarrow> I (Suc j) s' | (Inl f, s') \<Rightarrow> E j f s')"
  shows "case steps body i n m of
           (Inr _, k, m') \<Rightarrow> k = i + n \<and> I k m'
         | (Inl f, k, m') \<Rightarrow> i \<le> k \<and> k < i + n \<and> E k f m'"
  using assms
proof (induction n arbitrary: i m)
  case 0
  then show ?case by simp
next
  case (Suc n)
  have step: "case body i m of (Inr _, s') \<Rightarrow> I (Suc i) s' | (Inl f, s') \<Rightarrow> E i f s'"
    using Suc.prems(1) Suc.prems(2)[of i m] by simp
  show ?case
  proof (cases "body i m")
    case (Pair r s')
    show ?thesis
    proof (cases r)
      case (Inl f)
      with Pair step show ?thesis by simp
    next
      case (Inr u)
      with Pair step have I': "I (Suc i) s'" by simp
      have "case steps body (Suc i) n s' of
           (Inr _, k, m') \<Rightarrow> k = Suc i + n \<and> I k m'
         | (Inl f, k, m') \<Rightarrow> Suc i \<le> k \<and> k < Suc i + n \<and> E k f m'"
        by (rule Suc.IH[OF I']) (use Suc.prems(2) in auto)
      with Pair Inr show ?thesis by (auto split: prod.splits sum.splits)
    qed
  qed
qed

lemma room_in_block: "room m p i n \<Longrightarrow> j < n \<Longrightarrow> \<exists>a. p = Some a \<and> in_block m a (i + j)"
  by (auto simp: room_def in_block_def)

lemma raw_ok_room: "raw_ok m r \<Longrightarrow> i + n \<le> capacity r \<Longrightarrow> room m (buffer r) i n"
  by (auto simp: raw_ok_def room_def split: option.splits)

lemma live_cell: "live m (Some a) i n \<Longrightarrow> j < n \<Longrightarrow> \<exists>x. cell m a (i + j) = Some x"
  unfolding live_def by (drule spec[of _ "i + j"]) simp

lemma transplanted_0: "transplanted T k sp si dp di m 0 m"
  by (auto simp add: transplanted_def)

lemma transplant_step:
  assumes inv: "transplanted T k sp si dp di m j s"
    and ab: "sp \<noteq> dp" and k: "k = CopyCtor \<or> k = MoveCtor"
    and src: "room m sp si n" "live m sp si n"
    and dst: "room m dp di n"
    and j: "j < n"
  shows "case construct_at T k (At sp (si + j)) dp (di + j) s of
           (Inr _, s') \<Rightarrow> transplanted T k sp si dp di m (Suc j) s'
         | (Inl f, s') \<Rightarrow> \<not> never_throws T"
proof -
  obtain a where a: "sp = Some a" "in_block m a (si + j)"
    using room_in_block[OF src(1) j] by auto
  obtain b where b: "dp = Some b" "in_block m b (di + j)"
    using room_in_block[OF dst j] by auto
  obtain x where x: "cell m a (si + j) = Some x"
    using live_cell[of m a si n j] src(2) j a by auto
  have sx: "cell s a (si + j) = Some x"
    using inv ab x a b by (simp add: transplanted_def)
  have ib: "in_block s b (di + j)" "in_block s a (si + j)"
    using inv a b by (simp_all add: transplanted_def in_block_def)
  show ?thesis
  proof (cases "raises T (trace s) k x")
    case True
    then have "\<not> never_throws T" by (auto simp: never_throws_def)
    with True show ?thesis by (simp add: a b construct_at_cell[OF ib sx])
  next
    case False
    have "transplanted T k sp si dp di m (Suc j)
       (log (EvOp k (Cell (Some a) (si + j)) (Cell (Some b) (di + j)))
              (put (Some b) (di + j) (Some x)
                 (if k = MoveCtor \<or> k = MoveAssign then put (Some a) (si + j) (Some (moved_from T x)) s else s)))"
      using inv ab k x a b unfolding transplanted_def
      by (auto simp: less_Suc_eq)
    with False show ?thesis by (simp add: a b construct_at_cell[OF ib sx])
  qed
qed

lemma transplant_steps:
  assumes ab: "sp \<noteq> dp \<or> n = 0" and k: "k = CopyCtor \<or> k = MoveCtor"
    and src: "room m sp si n" "live m sp si n"
    and dst: "room m dp di n"
  shows "case steps (\<lambda>t. construct_at T k (At sp (si + t)) dp (di + t)) 0 n m of
           (Inr _, j, m') \<Rightarrow> transplanted T k sp si dp di m n m'
         | (Inl f, j, m') \<Rightarrow> \<not> never_throws T"
proof (cases "n = 0")
  case True
  then show ?thesis by (simp add: transplanted_0)
next
  case False
  with ab have ab': "sp \<noteq> dp" by simp
  have "case steps (\<lambda>t. construct_at T k (At sp (si + t)) dp (di + t)) 0 n m of
           (Inr _, j, m') \<Rightarrow> j = 0 + n \<and> transplanted T k sp si dp di m j m'
         | (Inl f, j, m') \<Rightarrow> 0 \<le> j \<and> j < 0 + n \<and> \<not> never_throws T"
    by (rule steps_cases[where I = "transplanted T k sp si dp di m" and E = "\<lambda>_ _ _. \<not> never_throws T"])
       (use transplanted_0 transplant_step[OF _ ab' k src dst] in auto)
  then show ?thesis by (auto split: prod.splits sum.splits)
qed

lemma uninitialized_move_n_ok:
  assumes "sp \<noteq> dp \<or> n = 0" "room m sp si n" "live m sp si n" "room m dp di n"
  shows "case uninitialized_move_n T sp si n dp di m of
           (Inr _, m') \<Rightarrow> transplanted T MoveCtor sp si dp di m n m'
         | (Inl f, m') \<Rightarrow> \<not> never_throws T"
  using transplant_steps[OF assms(1) _ assms(2-4), of MoveCtor T]
  by (auto simp: uninitialized_move_n_def rollback_def split: prod.splits sum.splits fault.splits)

lemma uninitialized_copy_n_ok:
  assumes "sp \<noteq> dp \<or> n = 0" "room m sp si n" "live m sp si n" "room m dp di n"
  shows "case uninitialized_copy_n T sp si n dp di m of
           (Inr _, m') \<Rightarrow> transplanted T CopyCtor sp si dp di m n m'
         | (Inl f, m') \<Rightarrow> \<not> never_throws T"
  using transplant_steps[OF assms(1) _ assms(2-4), of CopyCtor T]
  by (auto simp: uninitialized_copy_n_def rollback_def split: prod.splits sum.splits fault.splits)

lemma destroy_step:
  assumes inv: "destroyed p i m j s" and r: "room m p i n" and l: "live m p i n" and j: "j < n"
  shows "case destroy_at p (i + j) s of
           (Inr _, s') \<Rightarrow> destroyed p i m (Suc j) s'
         | (Inl f, s') \<Rightarrow> False"
proof -
  obtain a where a: "p = Some a" "in_block m a (i + j)"
    using room_in_block[OF r j] by auto
  obtain x where x: "cell m a (i + j) = Some x"
    using live_cell[of m a i n j] l j a by auto
  have sx: "cell s a (i + j) = Some x"
    using inv x a by (simp add: destroyed_def)
  have ib: "in_block s a (i + j)"
    using inv a by (simp_all add: destroyed_def in_block_def)
  have "destroyed p i m (Suc j) (log (EvDestroy (Cell (Some a) (i + j))) (put (Some a) (i + j) None s))"
    using inv a unfolding destroyed_def by (auto simp: less_Suc_eq)
  then show ?thesis by (simp add: a destroy_at_cell[OF ib sx])
qed

lemma destroy_n_ok:
  assumes "room m p i n" "live m p i n"
  shows "\<exists>m'. destroy_n p i n m = (Inr (), m') \<and> destroyed p i m n m'"
proof -
  have "case steps (\<lambda>t. destroy_at p (i + t)) 0 n m of
           (Inr _, j, m') \<Rightarrow> j = 0 + n \<and> destroyed p i m j m'
         | (Inl f, j, m') \<Rightarrow> 0 \<le> j \<and> j < 0 + n \<and> False"
    by (rule steps_cases[where I = "destroyed p i m" and E = "\<lambda>_ _ _. False"])
       (use destroy_step[OF _ assms] in \<open>auto simp: destroyed_def\<close>)
  then show ?thesis by (auto simp: destroy_n_def split: prod.splits sum.splits)
qed


section \<open>Size and capacity after each operation\<close>

lemma replace_block_fields:
  assumes "replace_block v new_data m = (r, v', m')"
  shows "vsize v' = vsize v \<and> (data v' = new_data \<or> (data v' = data v \<and> r \<noteq> Inr ()))"
proof -
  have "case replace_block v new_data m of
     (r, v', m') \<Rightarrow> vsize v' = vsize v \<and> (data v' = new_data \<or> (data v' = data v \<and> r \<noteq> Inr ()))"
    by (simp add: replace_block_def RawMemory_Swap_def split: prod.split sum.split)
  with assms show ?thesis by simp
qed

lemma Reserve_fields:
  assumes "Reserve T n v m = (r, v', m')"
  shows "vsize v' = vsize v \<and> capacity (data v) \<le> capacity (data v') \<and> (r = Inr () \<longrightarrow> n \<le> capacity (data v'))"
proof -
  have "case Reserve T n v m of
     (r, v', m') \<Rightarrow> vsize v' = vsize v \<and> capacity (data v) \<le> capacity (data v') \<and>
        (r = Inr () \<longrightarrow> n \<le> capacity (data v'))"
    by (auto simp add: Reserve_def RawMemory_new_def Capacity_def split: prod.split sum.split
        dest!: replace_block_fields)
  with assms show ?thesis by simp
qed

lemma Reserve_fits: "fits v \<Longrightarrow> Reserve T n v m = (r, v', m') \<Longrightarrow> fits v'"
  using Reserve_fields[of T n v m r v' m'] by (auto simp: fits_def Vector_Capacity_def Capacity_def)

lemma Resize_fits:
  assumes "fits v" "Resize T n v m = (r, v', m')"
  shows "fits v'"
proof -
  have "case Resize T n v m of (r, v', m') \<Rightarrow> fits v'"
    using assms(1)
    by (auto simp add: Resize_def fits_def Vector_Capacity_def Capacity_def split: prod.split sum.split
        dest!: Reserve_fields)
  with assms show ?thesis by simp
qed

lemma PopBack_fits:
  assumes "fits v" "PopBack v m = (r, v', m')"
  shows "fits v'"
proof -
  have "case PopBack v m of (r, v', m') \<Rightarrow> fits v'"
    using assms(1)
    by (auto simp add: PopBack_def fits_def Vector_Capacity_def Capacity_def split: prod.split sum.split)
  with assms show ?thesis by simp
qed

lemma EmplaceBack_grow_fields:
  assumes "EmplaceBack_grow T a v m = (r, v', m')"
  shows "vsize v' = vsize v \<and>
     (capacity (data v') = (if vsize v = 0 then 1 else vsize v * 2) \<or> (data v' = data v \<and> r \<noteq> Inr ()))"
proof -
  have "case EmplaceBack_grow T a v m of (r, v', m') \<Rightarrow> vsize v' = vsize v \<and>
     (capacity (data v') = (if vsize v = 0 then 1 else vsize v * 2) \<or> (data v' = data v \<and> r \<noteq> Inr ()))"
    by (auto simp add: EmplaceBack_grow_def RawMemory_new_def split: prod.split sum.split
        dest!: replace_block_fields)
  with assms show ?thesis by simp
qed

lemma EmplaceBack_fields:
  assumes "EmplaceBack T a v m = (Inr p, v', m')"
  shows "vsize v' = vsize v + 1 \<and>
         Vector_Capacity v' = (if vsize v = Vector_Capacity v then max 1 (2 * Vector_Capacity v) else Vector_Capacity v)"
proof -
  have "case EmplaceBack T a v m of
     (Inr p, v', m') \<Rightarrow> vsize v' = vsize v + 1 \<and>
         Vector_Capacity v' = (if vsize v = Vector_Capacity v then max 1 (2 * Vector_Capacity v) else Vector_Capacity v)
   | (Inl f, v', m') \<Rightarrow> True"
    by (auto simp add: EmplaceBack_def Capacity_def Vector_Capacity_def Let_def
      split: prod.split sum.split dest!: EmplaceBack_grow_fields)
  with assms show ?thesis by simp
qed

lemma EmplaceBack_fits:
  assumes "fits v" "EmplaceBack T a v m = (r, v', m')"
  shows "fits v'"
proof -
  have "case EmplaceBack T a v m of (r, v', m') \<Rightarrow> fits v'"
    using assms(1)
    by (auto simp add: EmplaceBack_def Capacity_def Vector_Capacity_def Let_def fits_def
      split: prod.split sum.split dest!: EmplaceBack_grow_fields)
  with assms show ?thesis by simp
qed

lemma PushBack_fits:
  assumes "fits v" "PushBack T a v m = (r, v', m')"
  shows "fits v'"
proof -
  have "case PushBack T a v m of (r, v', m') \<Rightarrow> fits v'"
    using assms(1)
    by (auto simp add: PushBack_def split: prod.split sum.split dest: EmplaceBack_fits)
  with assms show ?thesis by simp
qed

lemma Emplace_grow_fields:
  assumes "Emplace_grow T i a v m = (r, v', m')"
  shows "vsize v' = vsize v \<and>
     (capacity (data v') = (if vsize v = 0 then 1 else vsize v * 2) \<or> (data v' = data v \<and> r \<noteq> Inr ()))"
proof -
  have "case Emplace_grow T i a v m of (r, v', m') \<Rightarrow> vsize v' = vsize v \<and>
     (capacity (data v') = (if vsize v = 0 then 1 else vsize v * 2) \<or> (data v' = data v \<and> r \<noteq> Inr ()))"
    by (auto simp add: Emplace_grow_def RawMemory_new_def Let_def split: prod.split sum.split fault.split
        dest!: replace_block_fields)
  with assms show ?thesis by simp
qed

lemma Emplace_shift_fields:
  assumes "Emplace_shift T i a v m = (r, v', m')"
  shows "v' = v"
proof -
  have "case Emplace_shift T i a v m of (r, v', m') \<Rightarrow> v' = v"
    by (simp add: Emplace_shift_def split: prod.split sum.split)
  with assms show ?thesis by simp
qed

lemma Emplace_fits:
  assumes "fits v" "Emplace T i a v m = (r, v', m')"
  shows "fits v'"
proof -
  have "case Emplace T i a v m of (r, v', m') \<Rightarrow> fits v'"
    using assms(1)
    by (auto simp add: Emplace_def Capacity_def Vector_Capacity_def fits_def
      split: prod.split sum.split dest!: Emplace_grow_fields Emplace_shift_fields)
  with assms show ?thesis by simp
qed

lemma Erase_fits:
  assumes "fits v" "Erase T i v m = (r, v', m')"
  shows "fits v'"
proof -
  have "case Erase T i v m of (r, v', m') \<Rightarrow> fits v'"
    using assms(1)
    by (auto simp add: Erase_def fits_def Vector_Capacity_def Capacity_def RawMemory_index_def
      split: prod.split sum.split)
  with assms show ?thesis by simp
qed

lemma on_vector_fits:
  assumes "all_fit w" and "\<And>v m r v' m'. fits v \<Longrightarrow> f v m = (r, v', m') \<Longrightarrow> fits v'"
  shows "all_fit (snd (on_vector f this w))"
proof -
  obtain r v' m' where f: "f (vectors w this) (memory w) = (r, v', m')"
    by (cases "f (vectors w this) (memory w)") auto
  have "fits v'"
    using assms(2)[OF _ f] assms(1) by (simp add: all_fit_def)
  with assms(1) f show ?thesis by (simp add: all_fit_def on_vector_def)
qed

lemma Vector_new_fits: "Vector_new T n m = (Inr v, m') \<Longrightarrow> fits v"
  by (auto simp: Vector_new_def RawMemory_new_def fits_def Vector_Capacity_def Capacity_def
      split: prod.splits sum.splits)

lemma Vector_copy_fits: "Vector_copy T other m = (Inr v, m') \<Longrightarrow> fits v"
  by (auto simp: Vector_copy_def RawMemory_new_def fits_def Vector_Capacity_def Capacity_def
      split: prod.splits sum.splits)

lemma swap_vectors_fits: "fits a \<Longrightarrow> fits b \<Longrightarrow> fits (fst (swap_vectors a b)) \<and> fits (snd (swap_vectors a b))"
  by (simp add: swap_vectors_def RawMemory_Swap_def fits_def Vector_Capacity_def Capacity_def)

lemma Vector_Swap_fits: "all_fit w \<Longrightarrow> all_fit (Vector_Swap this other w)"
  using swap_vectors_fits[of "vectors w this" "vectors w other"]
  by (auto simp: all_fit_def Vector_Swap_def split: prod.split)

lemma Vector_default_fits: "fits Vector_default"
  by (simp add: fits_def Vector_default_def Vector_Capacity_def Capacity_def RawMemory_default_def)

lemma Vector_default_ctor_fits: "all_fit w \<Longrightarrow> all_fit (Vector_default_ctor this w)"
  by (simp add: all_fit_def Vector_default_ctor_def Vector_default_fits)

lemma Vector_size_ctor_fits: "all_fit w \<Longrightarrow> all_fit (snd (Vector_size_ctor T this n w))"
  by (auto simp: all_fit_def Vector_size_ctor_def split: prod.split sum.split dest: Vector_new_fits)

lemma Vector_copy_ctor_fits: "all_fit w \<Longrightarrow> all_fit (snd (Vector_copy_ctor T this other w))"
  by (auto simp: all_fit_def Vector_copy_ctor_def split: prod.split sum.split dest: Vector_copy_fits)

lemma Vector_copy_assign_fits: "all_fit w \<Longrightarrow> all_fit (snd (Vector_copy_assign T this rhs w))"
  by (auto simp: all_fit_def Vector_copy_assign_def Let_def swap_vectors_def RawMemory_Swap_def
      fits_def Vector_Capacity_def Capacity_def
      split: prod.split sum.split dest!: Vector_copy_fits)

lemma exec_fits:
  assumes "all_fit w"
  shows "all_fit (exec T c w)"
proof (cases c)
  case (Call_Reserve this n)
  show ?thesis unfolding Call_Reserve exec.simps by (rule on_vector_fits[OF assms]) (rule Reserve_fits)
next
  case (Call_Resize this n)
  show ?thesis unfolding Call_Resize exec.simps by (rule on_vector_fits[OF assms]) (rule Resize_fits)
next
  case (Call_PushBack this a)
  show ?thesis unfolding Call_PushBack exec.simps by (rule on_vector_fits[OF assms]) (rule PushBack_fits)
next
  case (Call_PopBack this)
  show ?thesis unfolding Call_PopBack exec.simps by (rule on_vector_fits[OF assms]) (rule PopBack_fits)
next
  case (Call_EmplaceBack this a)
  show ?thesis unfolding Call_EmplaceBack exec.simps by (rule on_vector_fits[OF assms]) (rule EmplaceBack_fits)
next
  case (Call_Emplace this i a)
  show ?thesis unfolding Call_Emplace exec.simps by (rule on_vector_fits[OF assms]) (rule Emplace_fits)
next
  case (Call_Insert this i a)
  show ?thesis unfolding Call_Insert exec.simps
    by (rule on_vector_fits[OF assms]) (simp add: Insert_def Emplace_fits)
next
  case (Call_Erase this i)
  show ?thesis unfolding Call_Erase exec.simps by (rule on_vector_fits[OF assms]) (rule Erase_fits)
qed (use assms in \<open>simp_all add: Vector_default_ctor_fits Vector_size_ctor_fits Vector_copy_ctor_fits
      Vector_copy_assign_fits Vector_Swap_fits Vector_move_ctor_def Vector_move_assign_def\<close>)

lemma run_fits: "all_fit w \<Longrightarrow> all_fit (run T cs w)"
  by (induction cs arbitrary: w) (simp_all add: exec_fits)

lemma empty_world_fits: "all_fit empty_world"
  by (simp add: all_fit_def empty_world_def Vector_default_fits)


section \<open>What a failed call leaves untouched\<close>

lemma kept_refl [simp]: "kept n m m"
  by (simp add: kept_def)

lemma kept_trans: "kept n m m' \<Longrightarrow> kept n m' m'' \<Longrightarrow> kept n m m''"
  by (auto simp: kept_def)

lemma kept_log [simp]: "kept n m (log e m') = kept n m m'"
  by (simp add: kept_def)

lemma kept_put: "(\<And>a. p = Some a \<Longrightarrow> n \<le> a) \<Longrightarrow> kept n m (put p i c m') = kept n m m'"
  by (cases p) (auto simp: kept_def put_def)

lemma slot_fault: "slot m p i = Inl f \<Longrightarrow> no_exception f"
  by (auto simp: slot_def no_exception_def split: option.splits if_splits)

lemma load_fault: "load m r = Inl f \<Longrightarrow> no_exception f"
  by (auto simp: load_def no_exception_def split: ref.splits sum.splits option.splits dest: slot_fault)

lemma transfer_copy_kept:
  assumes "transfer T k r m = (res, m')" "k = CopyCtor \<or> k = CopyAssign \<or> (\<forall>p i. r \<noteq> At p i)"
  shows "kept n m m'"
  using assms
  by (cases r) (auto simp: transfer_def leave_moved_def split: sum.splits if_splits)

lemma transfer_thrown: "transfer T k r m = (Inl (Thrown e), m') \<Longrightarrow> e = k"
  by (auto simp: transfer_def no_exception_def split: sum.splits if_splits dest: load_fault)

lemma construct_at_kept:
  assumes "construct_at T k r p i m = (res, m')"
    and "\<And>a. p = Some a \<Longrightarrow> n \<le> a"
    and "k = CopyCtor \<or> k = CopyAssign \<or> (\<forall>p i. r \<noteq> At p i)"
  shows "kept n m m'"
proof -
  have "case construct_at T k r p i m of (res, m') \<Rightarrow> kept n m m'"
    using assms(2,3)
    by (auto simp: construct_at_def kept_put split: sum.split prod.split dest: transfer_copy_kept)
  with assms(1) show ?thesis by simp
qed

lemma construct_at_thrown: "construct_at T k r p i m = (Inl (Thrown e), m') \<Longrightarrow> e = k"
  by (auto simp: construct_at_def no_exception_def split: sum.splits prod.splits
      dest: transfer_thrown slot_fault)

lemma construct_arg_kept:
  assumes "construct_arg T a p i m = (res, m')"
    and "\<And>b. p = Some b \<Longrightarrow> n \<le> b"
    and "keeps_source a"
  shows "kept n m m'"
  using assms
  by (auto simp: construct_arg_def keeps_source_def split: arg.splits ref.splits
      intro: construct_at_kept)

lemma destroy_at_kept:
  assumes "destroy_at p i m = (res, m')" "\<And>a. p = Some a \<Longrightarrow> n \<le> a"
  shows "kept n m m'"
  using assms by (auto simp: destroy_at_def kept_put split: sum.splits option.splits)

lemma destroy_at_fault: "destroy_at p i m = (Inl f, m') \<Longrightarrow> no_exception f"
  by (auto simp: destroy_at_def no_exception_def split: sum.splits option.splits dest: slot_fault)

lemma steps_kept:
  assumes "\<And>i s r s'. body i s = (r, s') \<Longrightarrow> kept n s s'"
    and "steps body i k m = (r, j, m')"
  shows "kept n m m'"
  using assms(2)
proof (induction k arbitrary: i m)
  case 0
  then show ?case by simp
next
  case (Suc k)
  obtain r1 s1 where b: "body i m = (r1, s1)" by (cases "body i m") auto
  have k1: "kept n m s1" using assms(1)[OF b] .
  show ?case
  proof (cases r1)
    case (Inl f)
    with Suc.prems b k1 show ?thesis by simp
  next
    case (Inr u)
    with Suc.prems b have "steps body (Suc i) k s1 = (r, j, m')" by simp
    from Suc.IH[OF this] k1 show ?thesis by (rule kept_trans[rotated])
  qed
qed

lemma steps_fault:
  assumes "\<And>i s f s'. body i s = (Inl f, s') \<Longrightarrow> Q f"
    and "steps body i k m = (Inl f, j, m')"
  shows "Q f"
  using assms(2)
proof (induction k arbitrary: i m)
  case 0
  then show ?case by simp
next
  case (Suc k)
  obtain r1 s1 where b: "body i m = (r1, s1)" by (cases "body i m") auto
  show ?case
  proof (cases r1)
    case (Inl g)
    with Suc.prems b assms(1)[of i m g s1] show ?thesis by simp
  next
    case (Inr u)
    with Suc.prems b have "steps body (Suc i) k s1 = (Inl f, j, m')" by simp
    from Suc.IH[OF this] show ?thesis .
  qed
qed

lemma destroy_n_kept:
  assumes "destroy_n p i k m = (res, m')" "\<And>a. p = Some a \<Longrightarrow> n \<le> a"
  shows "kept n m m'"
proof -
  obtain r j where s: "steps (\<lambda>t. destroy_at p (i + t)) 0 k m = (r, j, m')"
    using assms(1) by (auto simp: destroy_n_def split: prod.splits)
  show ?thesis
    by (rule steps_kept[OF _ s]) (rule destroy_at_kept, assumption, rule assms(2))
qed

lemma destroy_n_fault:
  assumes "destroy_n p i k m = (Inl f, m')"
  shows "no_exception f"
proof -
  obtain j where s: "steps (\<lambda>t. destroy_at p (i + t)) 0 k m = (Inl f, j, m')"
    using assms(1) by (auto simp: destroy_n_def split: prod.splits)
  show ?thesis
    by (rule steps_fault[OF _ s]) (rule destroy_at_fault)
qed

lemma rollback_kept:
  assumes "rollback p i (r, j, m1) = (res, m')" "\<And>a. p = Some a \<Longrightarrow> n \<le> a"
  shows "kept n m1 m'"
  using assms
  by (auto simp: rollback_def split: sum.splits fault.splits prod.splits dest: destroy_n_kept)

lemma rollback_thrown:
  assumes "rollback p i (r, j, m1) = (Inl (Thrown e), m')"
  shows "r = Inl (Thrown e)"
  using assms
  by (auto simp: rollback_def no_exception_def split: sum.splits fault.splits prod.splits
      dest!: destroy_n_fault)

lemma uninitialized_copy_n_kept:
  assumes "uninitialized_copy_n T sp si k dp di m = (res, m')" "\<And>a. dp = Some a \<Longrightarrow> n \<le> a"
  shows "kept n m m'"
proof -
  obtain r j m1 where s: "steps (\<lambda>t. construct_at T CopyCtor (At sp (si + t)) dp (di + t)) 0 k m = (r, j, m1)"
    by (cases "steps (\<lambda>t. construct_at T CopyCtor (At sp (si + t)) dp (di + t)) 0 k m") auto
  have 1: "kept n m m1"
    by (rule steps_kept[OF _ s]) (rule construct_at_kept, assumption, rule assms(2), simp_all)
  have 2: "kept n m1 m'"
    using assms(1) s by (auto simp: uninitialized_copy_n_def intro: rollback_kept assms(2))
  from 1 2 show ?thesis by (rule kept_trans)
qed

lemma uninitialized_copy_n_thrown:
  assumes "uninitialized_copy_n T sp si k dp di m = (Inl (Thrown e), m')"
  shows "e = CopyCtor"
proof -
  obtain r j m1 where s: "steps (\<lambda>t. construct_at T CopyCtor (At sp (si + t)) dp (di + t)) 0 k m = (r, j, m1)"
    by (cases "steps (\<lambda>t. construct_at T CopyCtor (At sp (si + t)) dp (di + t)) 0 k m") auto
  with assms have "r = Inl (Thrown e)"
    by (auto simp: uninitialized_copy_n_def dest: rollback_thrown)
  with s have "steps (\<lambda>t. construct_at T CopyCtor (At sp (si + t)) dp (di + t)) 0 k m = (Inl (Thrown e), j, m1)"
    by simp
  from steps_fault[where Q = "\<lambda>f. \<forall>e. f = Thrown e \<longrightarrow> e = CopyCtor", OF _ this]
  show ?thesis by (auto dest: construct_at_thrown)
qed

lemma uninitialized_move_n_thrown:
  assumes "uninitialized_move_n T sp si k dp di m = (Inl (Thrown e), m')"
  shows "e = MoveCtor"
proof -
  obtain r j m1 where s: "steps (\<lambda>t. construct_at T MoveCtor (At sp (si + t)) dp (di + t)) 0 k m = (r, j, m1)"
    by (cases "steps (\<lambda>t. construct_at T MoveCtor (At sp (si + t)) dp (di + t)) 0 k m") auto
  with assms have "r = Inl (Thrown e)"
    by (auto simp: uninitialized_move_n_def dest: rollback_thrown)
  with s have "steps (\<lambda>t. construct_at T MoveCtor (At sp (si + t)) dp (di + t)) 0 k m = (Inl (Thrown e), j, m1)"
    by simp
  from steps_fault[where Q = "\<lambda>f. \<forall>e. f = Thrown e \<longrightarrow> e = MoveCtor", OF _ this]
  show ?thesis by (auto dest: construct_at_thrown)
qed

lemma Deallocate_kept:
  assumes "Deallocate buf m = (res, m')" "\<And>a. buf = Some a \<Longrightarrow> n \<le> a"
  shows "kept n m m'"
  using assms by (auto simp: Deallocate_def kept_def split: option.splits if_splits)

lemma Deallocate_fault: "Deallocate buf m = (Inl f, m') \<Longrightarrow> no_exception f"
  by (auto simp: Deallocate_def no_exception_def split: option.splits if_splits)

lemma unwind_kept:
  assumes "unwind f r m = (g, m')" "\<And>a. buffer r = Some a \<Longrightarrow> n \<le> a"
  shows "kept n m m'"
  using assms
  by (auto simp: unwind_def RawMemory_delete_def split: fault.splits sum.splits prod.splits
      dest: Deallocate_kept)

lemma unwind_thrown: "unwind f r m = (Thrown e, m') \<Longrightarrow> f = Thrown e"
  by (auto simp: unwind_def RawMemory_delete_def no_exception_def
      split: fault.splits sum.splits prod.splits dest!: Deallocate_fault)

lemma RawMemory_new_kept:
  assumes "RawMemory_new k m = (r, m')"
  shows "kept (next_block m) m m' \<and> (\<forall>a. buffer r = Some a \<longrightarrow> next_block m \<le> a) \<and> capacity r = k"
  using assms by (auto simp: RawMemory_new_def Allocate_def kept_def split: if_splits)

lemma replace_block_fault: "replace_block v nd m = (Inl f, v', m') \<Longrightarrow> no_exception f"
  by (auto simp: replace_block_def RawMemory_delete_def RawMemory_Swap_def
      split: sum.splits prod.splits dest: destroy_n_fault Deallocate_fault)


section \<open>The strong guarantee of the reallocating paths\<close>

lemma construct_at_failed_kept:
  assumes "construct_at T k r p i m = (Inl f, m')"
  shows "kept n m m'"
proof -
  have "case construct_at T k r p i m of (Inl f, m') \<Rightarrow> kept n m m' | (Inr _, m') \<Rightarrow> True"
    by (simp add: construct_at_def transfer_def split: sum.split prod.split)
  with assms show ?thesis by simp
qed

lemma construct_arg_failed_kept:
  assumes "construct_arg T a p i m = (Inl f, m')"
  shows "kept n m m'"
  using assms by (auto simp: construct_arg_def split: arg.splits dest: construct_at_failed_kept)

lemma construct_arg_thrown:
  assumes "construct_arg T a p i m = (Inl (Thrown e), m')"
  shows "e = CopyCtor \<or> e = MoveCtor"
  using assms by (auto simp: construct_arg_def split: arg.splits dest: construct_at_thrown)

lemma kept_elements:
  assumes "kept (next_block m) m m'" "vec_ok m v"
  shows "elements m' v = elements m v \<and> vec_ok m' v"
  using assms
  by (auto simp: kept_def vec_ok_def raw_ok_def live_def elements_def split: option.splits)

lemma Reserve_strong:
  assumes r: "Reserve T new_capacity v m = (Inl (Thrown e), v', m')"
    and e: "e = CopyCtor \<or> e = CopyAssign"
  shows "v' = v \<and> kept (next_block m) m m'"
proof -
  from r have big: "\<not> new_capacity \<le> Capacity (data v)"
    by (auto simp: Reserve_def)
  obtain new_data m1 where nd: "RawMemory_new new_capacity m = (new_data, m1)"
    by (cases "RawMemory_new new_capacity m") auto
  note k1 = RawMemory_new_kept[OF nd]
  let ?tp = "if nothrow_move_constructible T \<or> \<not> copy_constructible T
       then uninitialized_move_n T (GetAddress (data v)) 0 (vsize v) (GetAddress new_data) 0 m1
       else uninitialized_copy_n T (GetAddress (data v)) 0 (vsize v) (GetAddress new_data) 0 m1"
  obtain r2 m2 where tp: "?tp = (r2, m2)" by (cases ?tp) auto
  show ?thesis
  proof (cases r2)
    case (Inr u)
    with r big nd tp have "replace_block v new_data m2 = (Inl (Thrown e), v', m')"
      by (simp add: Reserve_def)
    from replace_block_fault[OF this] show ?thesis by (simp add: no_exception_def)
  next
    case (Inl f)
    with r big nd tp obtain g where u: "unwind f new_data m2 = (g, m')" and g: "g = Thrown e" and v: "v' = v"
      by (auto simp: Reserve_def split: prod.splits)
    from u g have f: "f = Thrown e" by (auto dest: unwind_thrown)
    have copy: "\<not> (nothrow_move_constructible T \<or> \<not> copy_constructible T)"
      using tp Inl f e by (auto split: if_splits dest: uninitialized_move_n_thrown)
    with tp have "uninitialized_copy_n T (GetAddress (data v)) 0 (vsize v) (GetAddress new_data) 0 m1 = (r2, m2)"
      by simp
    from uninitialized_copy_n_kept[OF this, of "next_block m"] k1
    have k2: "kept (next_block m) m1 m2" by (simp add: GetAddress_def)
    have k3: "kept (next_block m) m2 m'"
      using unwind_kept[OF u, of "next_block m"] k1 by simp
    from k1 k2 k3 v show ?thesis by (blast intro: kept_trans)
  qed
qed

lemma EmplaceBack_grow_strong:
  assumes r: "EmplaceBack_grow T a v m = (Inl (Thrown e), v', m')"
    and e: "e = CopyCtor \<or> e = CopyAssign"
    and a: "keeps_source a"
  shows "v' = v \<and> kept (next_block m) m m'"
proof -
  obtain new_data m1 where nd: "RawMemory_new (if vsize v = 0 then 1 else vsize v * 2) m = (new_data, m1)"
    by (cases "RawMemory_new (if vsize v = 0 then 1 else vsize v * 2) m") auto
  note k1 = RawMemory_new_kept[OF nd]
  have plus: "RawMemory_plus new_data (vsize v) = Inr (buffer new_data, vsize v)"
    using k1 by (auto simp: RawMemory_plus_def)
  obtain r2 m2 where ca: "construct_arg T a (buffer new_data) (vsize v) m1 = (r2, m2)"
    by (cases "construct_arg T a (buffer new_data) (vsize v) m1") auto
  show ?thesis
  proof (cases r2)
    case (Inl f)
    with r nd plus ca obtain g where u: "unwind f new_data m2 = (g, m')" and g: "g = Thrown e" and v: "v' = v"
      by (auto simp: EmplaceBack_grow_def split: prod.splits)
    have k2: "kept (next_block m) m1 m2" using ca Inl by (auto dest: construct_arg_failed_kept)
    have k3: "kept (next_block m) m2 m'"
      using unwind_kept[OF u, of "next_block m"] k1 by simp
    from k1 k2 k3 v show ?thesis by (blast intro: kept_trans)
  next
    case (Inr u1)
    have k2: "kept (next_block m) m1 m2"
      using construct_arg_kept[OF ca _ a, of "next_block m"] k1 by simp
    let ?tp = "if nothrow_move_constructible T \<or> \<not> copy_constructible T
       then uninitialized_move_n T (GetAddress (data v)) 0 (vsize v) (GetAddress new_data) 0 m2
       else uninitialized_copy_n T (GetAddress (data v)) 0 (vsize v) (GetAddress new_data) 0 m2"
    obtain r3 m3 where tp: "?tp = (r3, m3)" by (cases ?tp) auto
    show ?thesis
    proof (cases r3)
      case (Inr u)
      with r nd plus ca \<open>r2 = Inr u1\<close> tp have "replace_block v new_data m3 = (Inl (Thrown e), v', m')"
        by (simp add: EmplaceBack_grow_def)
      from replace_block_fault[OF this] show ?thesis by (simp add: no_exception_def)
    next
      case (Inl f)
      with r nd plus ca \<open>r2 = Inr u1\<close> tp
      obtain g where u: "unwind f new_data m3 = (g, m')" and g: "g = Thrown e" and v: "v' = v"
        by (auto simp: EmplaceBack_grow_def split: prod.splits)
      from u g have f: "f = Thrown e" by (auto dest: unwind_thrown)
      have copy: "\<not> (nothrow_move_constructible T \<or> \<not> copy_constructible T)"
        using tp Inl f e by (auto split: if_splits dest: uninitialized_move_n_thrown)
      with tp have "uninitialized_copy_n T (GetAddress (data v)) 0 (vsize v) (GetAddress new_data) 0 m2 = (r3, m3)"
        by simp
      from uninitialized_copy_n_kept[OF this, of "next_block m"] k1
      have k3: "kept (next_block m) m2 m3" by (simp add: GetAddress_def)
      have k4: "kept (next_block m) m3 m'"
        using unwind_kept[OF u, of "next_block m"] k1 by simp
      from k1 k2 k3 k4 v show ?thesis by (blast intro: kept_trans)
    qed
  qed
qed

lemma EmplaceBack_strong:
  assumes r: "EmplaceBack T a v m = (Inl (Thrown e), v', m')"
    and e: "e = CopyCtor \<or> e = CopyAssign"
    and a: "keeps_source a"
  shows "v' = v \<and> kept (next_block m) m m'"
proof (cases "vsize v = Vector_Capacity v")
  case True
  obtain r1 v1 m1 where g: "EmplaceBack_grow T a v m = (r1, v1, m1)"
    by (cases "EmplaceBack_grow T a v m") auto
  with r True have "r1 = Inl (Thrown e) \<and> v1 = v' \<and> m1 = m'"
    by (auto simp: EmplaceBack_def Let_def RawMemory_index_def split: sum.splits if_splits)
  with g EmplaceBack_grow_strong[OF _ e a] show ?thesis by simp
next
  case False
  obtain r1 m1 where c: "construct_arg T a (GetAddress (data v)) (vsize v) m = (r1, m1)"
    by (cases "construct_arg T a (GetAddress (data v)) (vsize v) m") auto
  with r False have "r1 = Inl (Thrown e) \<and> v = v' \<and> m1 = m'"
    by (auto simp: EmplaceBack_def Let_def RawMemory_index_def split: sum.splits if_splits)
  with c construct_arg_failed_kept[of T a _ _ m _ m'] show ?thesis by auto
qed

lemma Emplace_transplant_strong:
  assumes r: "Emplace_transplant T cb ca v tmp m = (Inl (Thrown e), m')"
    and e: "e = CopyCtor \<or> e = CopyAssign"
    and n: "\<And>a. buffer tmp = Some a \<Longrightarrow> n \<le> a"
  shows "kept n m m'"
proof -
  have copy: "\<not> (nothrow_move_constructible T \<or> \<not> copy_constructible T)"
    using r e
    by (auto simp: Emplace_transplant_def split: if_splits sum.splits prod.splits
        dest: uninitialized_move_n_thrown)
  obtain r1 m1 where c1: "uninitialized_copy_n T (GetAddress (data v)) 0 cb (GetAddress tmp) 0 m = (r1, m1)"
    by (cases "uninitialized_copy_n T (GetAddress (data v)) 0 cb (GetAddress tmp) 0 m") auto
  have k1: "kept n m m1"
    using uninitialized_copy_n_kept[OF c1, of n] n by (simp add: GetAddress_def)
  show ?thesis
  proof (cases r1)
    case (Inl f)
    with r copy c1 have "m' = m1" by (simp add: Emplace_transplant_def)
    with k1 show ?thesis by simp
  next
    case (Inr u)
    with r copy c1
    have "uninitialized_copy_n T (GetAddress (data v)) cb ca (GetAddress tmp) (cb + 1) m1 = (Inl (Thrown e), m')"
      by (simp add: Emplace_transplant_def)
    from uninitialized_copy_n_kept[OF this, of n] n have "kept n m1 m'" by (simp add: GetAddress_def)
    with k1 show ?thesis by (rule kept_trans)
  qed
qed

lemma Emplace_grow_strong:
  assumes r: "Emplace_grow T index a v m = (Inl (Thrown e), v', m')"
    and e: "e = CopyCtor \<or> e = CopyAssign"
    and a: "keeps_source a"
  shows "v' = v \<and> kept (next_block m) m m'"
proof -
  obtain tmp m1 where nd: "RawMemory_new (if vsize v = 0 then 1 else vsize v * 2) m = (tmp, m1)"
    by (cases "RawMemory_new (if vsize v = 0 then 1 else vsize v * 2) m") auto
  note k1 = RawMemory_new_kept[OF nd]
  obtain r2 m2 where ca: "construct_arg T a (GetAddress tmp) index m1 = (r2, m2)"
    by (cases "construct_arg T a (GetAddress tmp) index m1") auto
  show ?thesis
  proof (cases r2)
    case (Inl f)
    with r nd ca obtain g where u: "unwind f tmp m2 = (g, m')" and g: "g = Thrown e" and v: "v' = v"
      by (auto simp: Emplace_grow_def split: prod.splits)
    have k2: "kept (next_block m) m1 m2" using ca Inl by (auto dest: construct_arg_failed_kept)
    have k3: "kept (next_block m) m2 m'"
      using unwind_kept[OF u, of "next_block m"] k1 by simp
    from k1 k2 k3 v show ?thesis by (blast intro: kept_trans)
  next
    case (Inr u1)
    have k2: "kept (next_block m) m1 m2"
      using construct_arg_kept[OF ca _ a, of "next_block m"] k1 by (simp add: GetAddress_def)
    obtain r3 m3 where tp: "Emplace_transplant T index (vsize v - index) v tmp m2 = (r3, m3)"
      by (cases "Emplace_transplant T index (vsize v - index) v tmp m2") auto
    show ?thesis
    proof (cases r3)
      case (Inr u)
      with r nd ca \<open>r2 = Inr u1\<close> tp have "replace_block v tmp m3 = (Inl (Thrown e), v', m')"
        by (simp add: Emplace_grow_def)
      from replace_block_fault[OF this] show ?thesis by (simp add: no_exception_def)
    next
      case (Inl f)
      show ?thesis
      proof (cases f)
        case (Thrown e')
        obtain r4 m4 where d: "destroy_n (GetAddress tmp) 0 (index + 1) m3 = (r4, m4)"
          by (cases "destroy_n (GetAddress tmp) 0 (index + 1) m3") auto
        show ?thesis
        proof (cases r4)
          case (Inl f4)
          with r nd ca \<open>r2 = Inr u1\<close> tp \<open>r3 = Inl f\<close> Thrown d have "f4 = Thrown e"
            by (simp add: Emplace_grow_def)
          with d Inl destroy_n_fault[of "GetAddress tmp" 0 "index + 1" m3 f4 m4] show ?thesis
            by (simp add: no_exception_def)
        next
          case (Inr u4)
          with r nd ca \<open>r2 = Inr u1\<close> tp \<open>r3 = Inl f\<close> Thrown d
          obtain g where u: "unwind (Thrown e') tmp m4 = (g, m')" and g: "g = Thrown e" and v: "v' = v"
            by (auto simp: Emplace_grow_def split: prod.splits)
          from u g have e': "e' = e" by (auto dest: unwind_thrown)
          have k3: "kept (next_block m) m2 m3"
            using Emplace_transplant_strong[OF _ e, of T index "vsize v - index" v tmp m2 m3 "next_block m"]
              tp \<open>r3 = Inl f\<close> Thrown e' k1 by simp
          have k4: "kept (next_block m) m3 m4"
            using destroy_n_kept[OF d, of "next_block m"] k1 by (simp add: GetAddress_def)
          have k5: "kept (next_block m) m4 m'"
            using unwind_kept[OF u, of "next_block m"] k1 by simp
          from k1 k2 k3 k4 k5 v show ?thesis by (blast intro: kept_trans)
        qed
      next
        case AssertFailed
        with r nd ca \<open>r2 = Inr u1\<close> tp \<open>r3 = Inl f\<close> show ?thesis by (simp add: Emplace_grow_def)
      next
        case (Undefined x)
        with r nd ca \<open>r2 = Inr u1\<close> tp \<open>r3 = Inl f\<close> show ?thesis by (simp add: Emplace_grow_def)
      qed
    qed
  qed
qed

lemma Emplace_strong:
  assumes r: "Emplace T index a v m = (Inl (Thrown e), v', m')"
    and e: "e = CopyCtor \<or> e = CopyAssign"
    and a: "keeps_source a"
    and path: "vsize v = Vector_Capacity v \<or> index = vsize v"
  shows "v' = v \<and> kept (next_block m) m m'"
proof (cases "vsize v = Vector_Capacity v")
  case True
  obtain r1 v1 m1 where g: "Emplace_grow T index a v m = (r1, v1, m1)"
    by (cases "Emplace_grow T index a v m") auto
  with r True have "r1 = Inl (Thrown e) \<and> v1 = v' \<and> m1 = m'"
    by (auto simp: Emplace_def Vector_Capacity_def split: sum.splits if_splits)
  with g Emplace_grow_strong[OF _ e a] show ?thesis by simp
next
  case False
  with path have i: "index = vsize v" by simp
  obtain r1 m1 where c: "construct_arg T a (GetAddress (data v)) index m = (r1, m1)"
    by (cases "construct_arg T a (GetAddress (data v)) index m") auto
  with r False i have "r1 = Inl (Thrown e) \<and> v = v' \<and> m1 = m'"
    by (auto simp: Emplace_def Vector_Capacity_def split: sum.splits if_splits)
  with c construct_arg_failed_kept[of T a _ _ m _ m'] show ?thesis by auto
qed

lemma Vector_delete_fault: "Vector_delete v m = (Inl f, m') \<Longrightarrow> no_exception f"
  by (auto simp: Vector_delete_def RawMemory_delete_def split: sum.splits prod.splits
      dest: destroy_n_fault Deallocate_fault)

lemma Vector_copy_failed_kept:
  assumes r: "Vector_copy T other m = (Inl f, m')"
  shows "kept (next_block m) m m'"
proof -
  obtain d m1 where nd: "RawMemory_new (vsize other) m = (d, m1)"
    by (cases "RawMemory_new (vsize other) m") auto
  note k1 = RawMemory_new_kept[OF nd]
  obtain r2 m2 where c: "uninitialized_copy_n T (GetAddress (data other)) 0 (vsize other) (GetAddress d) 0 m1 = (r2, m2)"
    by (cases "uninitialized_copy_n T (GetAddress (data other)) 0 (vsize other) (GetAddress d) 0 m1") auto
  have k2: "kept (next_block m) m1 m2"
    using uninitialized_copy_n_kept[OF c, of "next_block m"] k1 by (simp add: GetAddress_def)
  from r nd c obtain f2 g where "r2 = Inl f2" and u: "unwind f2 d m2 = (g, m')"
    by (auto simp: Vector_copy_def split: sum.splits prod.splits)
  have k3: "kept (next_block m) m2 m'"
    using unwind_kept[OF u, of "next_block m"] k1 by simp
  from k1 k2 k3 show ?thesis by (blast intro: kept_trans)
qed

lemma Vector_copy_assign_strong:
  assumes r: "Vector_copy_assign T this rhs w = (Inl (Thrown e), w')"
    and big: "Vector_Capacity (vectors w this) < Size (vectors w rhs)"
  shows "vectors w' = vectors w \<and> kept (next_block (memory w)) (memory w) (memory w')"
proof -
  from r have ne: "this \<noteq> rhs" by (auto simp: Vector_copy_assign_def)
  obtain r1 m1 where c: "Vector_copy T (vectors w rhs) (memory w) = (r1, m1)"
    by (cases "Vector_copy T (vectors w rhs) (memory w)") auto
  show ?thesis
  proof (cases r1)
    case (Inl f)
    with r ne big c have "w' = w\<lparr>memory := m1\<rparr>"
      by (simp add: Vector_copy_assign_def Let_def Vector_Capacity_def Size_def)
    with Vector_copy_failed_kept[of T "vectors w rhs" "memory w" f m1] c Inl show ?thesis by simp
  next
    case (Inr rhs_copy)
    with r ne big c
    have "\<exists>x m2. Vector_delete x m1 = (Inl (Thrown e), m2)"
      by (auto simp: Vector_copy_assign_def Let_def Vector_Capacity_def Size_def split: prod.splits)
    then show ?thesis by (auto dest: Vector_delete_fault simp: no_exception_def)
  qed
qed


lemma live_code [code]:
  "live m p i n = (case p of None \<Rightarrow> n = 0 | Some a \<Rightarrow> list_all (\<lambda>q. cell m a q \<noteq> None) [i..<i + n])"
  by (cases p) (auto simp: live_def list_all_iff)

lemma thrown_call:
  "fst c = Inl (Thrown e) \<Longrightarrow> c = (Inl (Thrown e), fst (snd c), snd (snd c))"
  by (simp add: prod_eq_iff)

lemma thrown_world_call:
  "fst c = Inl (Thrown e) \<Longrightarrow> c = (Inl (Thrown e), snd c)"
  by (simp add: prod_eq_iff)


section \<open>Reallocation: the calls that return\<close>

lemma RawMemory_new_fields:
  assumes "0 < n"
  shows "\<exists>m1. RawMemory_new n m = (\<lparr>buffer = Some (next_block m), capacity = n\<rparr>, m1)
     \<and> next_block m1 = Suc (next_block m)
     \<and> block_size m1 = (block_size m)(next_block m := n)
     \<and> released m1 = (released m)(next_block m := False)
     \<and> cell m1 = (cell m)(next_block m := (\<lambda>_. None))
     \<and> trace m1 = trace m"
  using assms by (simp add: RawMemory_new_def Allocate_def)

lemma replace_block_ok:
  assumes raw: "raw_ok m (data v)" and fit: "vsize v \<le> capacity (data v)"
    and lv: "live m (buffer (data v)) 0 (vsize v)"
  shows "\<exists>m'. replace_block v nd m = (Inr (), v\<lparr>data := nd\<rparr>, m')
     \<and> next_block m' = next_block m \<and> block_size m' = block_size m
     \<and> (\<forall>c. released m' c = (released m c \<or> Some c = buffer (data v)))
     \<and> (\<forall>c q. cell m' c q = (if Some c = buffer (data v) \<and> q < vsize v then None else cell m c q))
     \<and> trace m' = trace m @ map (\<lambda>t. EvDestroy (Cell (buffer (data v)) t)) [0..<vsize v]"
proof -
  have rm: "room m (buffer (data v)) 0 (vsize v)"
    using raw_ok_room[OF raw, of 0 "vsize v"] fit by simp
  obtain m1 where d: "destroy_n (buffer (data v)) 0 (vsize v) m = (Inr (), m1)"
    and d1: "destroyed (buffer (data v)) 0 m (vsize v) m1"
    using destroy_n_ok[OF rm lv] by blast
  show ?thesis
  proof (cases "buffer (data v)")
    case None
    with d d1 show ?thesis
      by (simp add: replace_block_def GetAddress_def RawMemory_Swap_def RawMemory_delete_def
          Deallocate_def destroyed_def)
  next
    case (Some a)
    with raw have a: "a < next_block m" "\<not> released m a" by (simp_all add: raw_ok_def)
    with d1 have "Deallocate (Some a) m1 = (Inr (), m1\<lparr>released := (released m1)(a := True)\<rparr>)"
      by (simp add: Deallocate_def destroyed_def)
    with Some d d1 show ?thesis
      by (auto simp add: replace_block_def GetAddress_def RawMemory_Swap_def RawMemory_delete_def
          destroyed_def)
  qed
qed

lemma vec_ok_src:
  assumes "vec_ok m v" "i + n \<le> vsize v"
  shows "room m (buffer (data v)) i n" "live m (buffer (data v)) i n"
  using assms raw_ok_room[of m "data v" i n]
  by (auto simp: vec_ok_def live_def)

lemma vec_ok_old_block:
  assumes "vec_ok m v" "buffer (data v) = Some a"
  shows "a < next_block m" "\<not> released m a" "block_size m a = capacity (data v)"
  using assms by (auto simp: vec_ok_def raw_ok_def)

lemma uninitialized_n_ok:
  assumes "K = CopyCtor \<or> K = MoveCtor"
    and "sp \<noteq> dp \<or> n = 0" "room m sp si n" "live m sp si n" "room m dp di n"
  shows "case (if K = MoveCtor then uninitialized_move_n T sp si n dp di m
               else uninitialized_copy_n T sp si n dp di m) of
           (Inr _, m') \<Rightarrow> transplanted T K sp si dp di m n m'
         | (Inl f, m') \<Rightarrow> \<not> never_throws T"
proof (cases "K = MoveCtor")
  case True
  show ?thesis unfolding True using uninitialized_move_n_ok[OF assms(2-5), of T] by simp
next
  case False
  with assms(1) have K: "K = CopyCtor" by simp
  show ?thesis unfolding K using uninitialized_copy_n_ok[OF assms(2-5), of T] by simp
qed

lemma live_transfer:
  assumes "live m sp i n"
    and "\<And>c q y. sp = Some c \<Longrightarrow> i \<le> q \<Longrightarrow> q < i + n \<Longrightarrow> cell m c q = Some y \<Longrightarrow> \<exists>z. cell m' c q = Some z"
  shows "live m' sp i n"
  unfolding live_def
proof (intro allI impI)
  fix q assume q: "i \<le> q \<and> q < i + n"
  with assms(1) obtain c y where "sp = Some c" "cell m c q = Some y" by (auto simp: live_def)
  with assms(2)[of c q y] q show "\<exists>a x. sp = Some a \<and> cell m' a q = Some x" by auto
qed

lemma room_transfer:
  assumes "room m p i n"
    and "\<And>c. p = Some c \<Longrightarrow> c < next_block m \<Longrightarrow>
           c < next_block m' \<and> released m' c = released m c \<and> block_size m' c = block_size m c"
  shows "room m' p i n"
  using assms by (auto simp: room_def)

lemma Emplace_transplant_ok:
  assumes src: "room m sp 0 n" "live m sp 0 n" and idx: "idx \<le> n"
    and dst: "room m (Some b) 0 (Suc n)" and ne: "sp \<noteq> Some b"
    and v: "buffer (data v) = sp" "buffer tmp = Some b"
  shows "case Emplace_transplant T idx (n - idx) v tmp m of
           (Inr _, m') \<Rightarrow>
              next_block m' = next_block m \<and> block_size m' = block_size m \<and> released m' = released m \<and>
              (\<forall>c q. cell m' c q =
                 (if c = b \<and> q < idx then cell m (the sp) q
                  else if c = b \<and> idx < q \<and> q \<le> n then cell m (the sp) (q - 1)
                  else if Some c = sp \<and> transplant_kind T = MoveCtor \<and> q < n
                       then map_option (moved_from T) (cell m c q)
                  else cell m c q)) \<and>
              trace m' = trace m
                 @ map (\<lambda>t. EvOp (transplant_kind T) (Cell sp t) (Cell (Some b) t)) [0..<idx]
                 @ map (\<lambda>t. EvOp (transplant_kind T) (Cell sp (idx + t)) (Cell (Some b) (idx + 1 + t))) [0..<n - idx]
         | (Inl f, m') \<Rightarrow> \<not> never_throws T"
proof -
  define K where "K = transplant_kind T"
  define un where "un = (\<lambda>sp si k dp di s. if K = MoveCtor then uninitialized_move_n T sp si k dp di s
     else uninitialized_copy_n T sp si k dp di s)"
  have K: "K = CopyCtor \<or> K = MoveCtor" by (simp add: K_def transplant_kind_def)
  have unf: "Emplace_transplant T idx (n - idx) v tmp m =
     (case un sp 0 idx (Some b) 0 m of
        (Inl f, m1) \<Rightarrow> (Inl f, m1)
      | (Inr _, m1) \<Rightarrow> un sp idx (n - idx) (Some b) (idx + 1) m1)"
    by (simp add: Emplace_transplant_def un_def K_def transplant_kind_def v GetAddress_def
        split: prod.split sum.split)
  have un_ok: "case un sp si k (Some b) di s of
           (Inr _, m') \<Rightarrow> transplanted T K sp si (Some b) di s k m'
         | (Inl f, m') \<Rightarrow> \<not> never_throws T"
    if "room s sp si k" "live s sp si k" "room s (Some b) di k" for si k di s
    unfolding un_def by (rule uninitialized_n_ok[OF K _ that]) (simp add: ne)
  have r1: "room m sp 0 idx" "live m sp 0 idx" "room m (Some b) 0 idx"
    using src dst idx by (auto simp: room_def live_def)
  obtain r m1 where f: "un sp 0 idx (Some b) 0 m = (r, m1)" by (cases "un sp 0 idx (Some b) 0 m") auto
  show ?thesis
  proof (cases r)
    case (Inl g)
    with un_ok[OF r1] f have "\<not> never_throws T" by simp
    with Inl f unf show ?thesis by simp
  next
    case (Inr u)
    with un_ok[OF r1] f have t1: "transplanted T K sp 0 (Some b) 0 m idx m1" by simp
    have r2: "room m1 sp idx (n - idx)" "live m1 sp idx (n - idx)" "room m1 (Some b) (idx + 1) (n - idx)"
      using src dst idx t1 ne
      by (auto simp: room_def live_def transplanted_def)
    obtain r' m2 where s: "un sp idx (n - idx) (Some b) (idx + 1) m1 = (r', m2)"
      by (cases "un sp idx (n - idx) (Some b) (idx + 1) m1") auto
    show ?thesis
    proof (cases r')
      case (Inl g)
      with un_ok[OF r2] s have "\<not> never_throws T" by simp
      with Inl f \<open>r = Inr u\<close> s unf show ?thesis by simp
    next
      case (Inr u')
      with un_ok[OF r2] s have t2: "transplanted T K sp idx (Some b) (idx + 1) m1 (n - idx) m2" by simp
      have res: "Emplace_transplant T idx (n - idx) v tmp m = (Inr (), m2)"
        using unf f s \<open>r = Inr u\<close> Inr by simp
      have cells: "\<forall>c q. cell m2 c q =
                 (if c = b \<and> q < idx then cell m (the sp) q
                  else if c = b \<and> idx < q \<and> q \<le> n then cell m (the sp) (q - 1)
                  else if Some c = sp \<and> K = MoveCtor \<and> q < n
                       then map_option (moved_from T) (cell m c q)
                  else cell m c q)"
        using t1 t2 ne idx unfolding transplanted_def by (auto simp: Suc_le_eq)
      have flds: "next_block m2 = next_block m \<and> block_size m2 = block_size m \<and> released m2 = released m"
        using t1 t2 by (simp add: transplanted_def)
      have tr: "trace m2 = trace m
                 @ map (\<lambda>t. EvOp K (Cell sp t) (Cell (Some b) t)) [0..<idx]
                 @ map (\<lambda>t. EvOp K (Cell sp (idx + t)) (Cell (Some b) (idx + 1 + t))) [0..<n - idx]"
        using t1 t2 by (simp add: transplanted_def)
      from res cells[unfolded K_def] flds tr[unfolded K_def] show ?thesis by simp
    qed
  qed
qed

lemma construct_arg_outside:
  assumes "outside a x" "in_block m b j"
  shows "construct_arg T a (Some b) j m =
     (if raises T (trace m) (arg_kind a) x then (Inl (Thrown (arg_kind a)), log (EvThrow (arg_kind a)) m)
      else (Inr (), log (EvOp (arg_kind a) Outside (Cell (Some b) j)) (put (Some b) j (Some x) m)))"
  using assms by (auto simp: outside_def construct_arg_def arg_kind_def construct_at_ext)

lemma raises_not_never: "raises T tr k x \<Longrightarrow> \<not> never_throws T"
  by (auto simp: never_throws_def)

lemma unwind_fst: "\<exists>g m'. unwind f r m = (g, m')"
  by (cases "unwind f r m") auto

lemma Emplace_grow_ok:
  assumes ok: "vec_ok m v" and idx: "index \<le> vsize v" and a: "outside a x"
  shows "case Emplace_grow T index a v m of
     (Inr _, v', m') \<Rightarrow>
        regrown v m (if vsize v = 0 then 1 else vsize v * 2) index (Some x) v' m' \<and>
        trace m' = trace m
          @ [EvOp (arg_kind a) Outside (Cell (Some (next_block m)) index)]
          @ map (\<lambda>t. EvOp (transplant_kind T) (Cell (buffer (data v)) t) (Cell (Some (next_block m)) t)) [0..<index]
          @ map (\<lambda>t. EvOp (transplant_kind T) (Cell (buffer (data v)) (index + t))
                   (Cell (Some (next_block m)) (index + 1 + t))) [0..<vsize v - index]
          @ map (\<lambda>t. EvDestroy (Cell (buffer (data v)) t)) [0..<vsize v]
   | (Inl f, v', m') \<Rightarrow> \<not> never_throws T"
proof -
  define nc where "nc = (if vsize v = 0 then 1 else vsize v * 2)"
  define b where "b = next_block m"
  define sp where "sp = buffer (data v)"
  define n where "n = vsize v"
  have nc: "0 < nc" "Suc n \<le> nc" by (auto simp: nc_def n_def)
  obtain m1 where new: "RawMemory_new nc m = (\<lparr>buffer = Some b, capacity = nc\<rparr>, m1)"
    and m1: "next_block m1 = Suc b" "block_size m1 = (block_size m)(b := nc)"
      "released m1 = (released m)(b := False)" "cell m1 = (cell m)(b := (\<lambda>_. None))" "trace m1 = trace m"
    using RawMemory_new_fields[OF nc(1), of m] by (auto simp: b_def)
  have src: "room m sp 0 n" "live m sp 0 n"
    using vec_ok_src[OF ok, of 0 n] by (simp_all add: sp_def n_def)
  have ne: "sp \<noteq> Some b"
    using ok by (auto simp: sp_def b_def vec_ok_def raw_ok_def)
  have old: "\<And>c. sp = Some c \<Longrightarrow> c < b \<and> \<not> released m c \<and> block_size m c = capacity (data v)"
    using ok by (auto simp: sp_def b_def vec_ok_def raw_ok_def)
  have ib: "in_block m1 b index" using m1 nc idx by (simp add: in_block_def n_def)
  let ?tmp = "\<lparr>buffer = Some b, capacity = nc\<rparr>"
  show ?thesis
  proof (cases "raises T (trace m1) (arg_kind a) x")
    case True
    then have "\<exists>g m'. Emplace_grow T index a v m = (Inl g, v, m')"
      using new[unfolded nc_def]
      by (simp add: Emplace_grow_def construct_arg_outside[OF a ib] GetAddress_def
          split: prod.split split del: if_split)
    with raises_not_never[OF True] show ?thesis by auto
  next
    case False
    define m2 where "m2 = log (EvOp (arg_kind a) Outside (Cell (Some b) index)) (put (Some b) index (Some x) m1)"
    have ca: "construct_arg T a (Some b) index m1 = (Inr (), m2)"
      using False by (simp add: construct_arg_outside[OF a ib] m2_def)
    have m2: "next_block m2 = Suc b" "block_size m2 = (block_size m)(b := nc)"
      "released m2 = (released m)(b := False)"
      "\<And>c q. cell m2 c q = (if c = b then (if q = index then Some x else None) else cell m c q)"
      "trace m2 = trace m @ [EvOp (arg_kind a) Outside (Cell (Some b) index)]"
      using m1 by (auto simp: m2_def)
    have src2: "room m2 sp 0 n" "live m2 sp 0 n"
      using old m2 by (auto intro!: room_transfer[OF src(1)] live_transfer[OF src(2)])
    have dst2: "room m2 (Some b) 0 (Suc n)"
      using m2 nc by (simp add: room_def)
    have tp: "case Emplace_transplant T index (n - index) v ?tmp m2 of
           (Inr _, m') \<Rightarrow>
              next_block m' = next_block m2 \<and> block_size m' = block_size m2 \<and> released m' = released m2 \<and>
              (\<forall>c q. cell m' c q =
                 (if c = b \<and> q < index then cell m2 (the sp) q
                  else if c = b \<and> index < q \<and> q \<le> n then cell m2 (the sp) (q - 1)
                  else if Some c = sp \<and> transplant_kind T = MoveCtor \<and> q < n
                       then map_option (moved_from T) (cell m2 c q)
                  else cell m2 c q)) \<and>
              trace m' = trace m2
                 @ map (\<lambda>t. EvOp (transplant_kind T) (Cell sp t) (Cell (Some b) t)) [0..<index]
                 @ map (\<lambda>t. EvOp (transplant_kind T) (Cell sp (index + t)) (Cell (Some b) (index + 1 + t))) [0..<n - index]
         | (Inl f, m') \<Rightarrow> \<not> never_throws T"
      by (rule Emplace_transplant_ok[OF src2 _ dst2 ne]) (use idx in \<open>simp_all add: sp_def n_def\<close>)
    obtain r3 m3 where t3: "Emplace_transplant T index (n - index) v ?tmp m2 = (r3, m3)"
      by (cases "Emplace_transplant T index (n - index) v ?tmp m2") auto
    have unf: "Emplace_grow T index a v m =
       (case (r3, m3) of
          (Inl (Thrown e), m3) \<Rightarrow>
             (case destroy_n (GetAddress ?tmp) 0 (index + 1) m3 of
                (Inl f, m4) \<Rightarrow> (Inl f, v, m4)
              | (Inr _, m4) \<Rightarrow> (case unwind (Thrown e) ?tmp m4 of (g, m5) \<Rightarrow> (Inl g, v, m5)))
        | (Inl f, m3) \<Rightarrow> (Inl f, v, m3)
        | (Inr _, m3) \<Rightarrow> replace_block v ?tmp m3)"
      unfolding nc_def
      using new[unfolded nc_def] ca t3[unfolded n_def nc_def]
      by (simp add: Emplace_grow_def GetAddress_def split del: if_split)
    show ?thesis
    proof (cases r3)
      case (Inl f)
      with tp t3 have "\<not> never_throws T" by simp
      moreover have "\<exists>g v' m'. Emplace_grow T index a v m = (Inl g, v', m')"
        unfolding unf using Inl by (auto split: fault.split sum.split prod.split)
      ultimately show ?thesis by auto
    next
      case (Inr u)
      with tp t3 have m3: "next_block m3 = Suc b" "block_size m3 = (block_size m)(b := nc)"
        "released m3 = (released m)(b := False)"
        "\<forall>c q. cell m3 c q =
                 (if c = b \<and> q < index then cell m2 (the sp) q
                  else if c = b \<and> index < q \<and> q \<le> n then cell m2 (the sp) (q - 1)
                  else if Some c = sp \<and> transplant_kind T = MoveCtor \<and> q < n
                       then map_option (moved_from T) (cell m2 c q)
                  else cell m2 c q)"
        "trace m3 = trace m2
                 @ map (\<lambda>t. EvOp (transplant_kind T) (Cell sp t) (Cell (Some b) t)) [0..<index]
                 @ map (\<lambda>t. EvOp (transplant_kind T) (Cell sp (index + t)) (Cell (Some b) (index + 1 + t))) [0..<n - index]"
        using m2 by simp_all
      have raw3: "raw_ok m3 (data v)"
        using ok m3 old by (auto simp: raw_ok_def vec_ok_def sp_def split: option.splits)
      have c3: "cell m3 c q = (if transplant_kind T = MoveCtor then map_option (moved_from T) (cell m c q)
                                else cell m c q)" if "sp = Some c" "q < n" for c q
      proof -
        from that ne have "c \<noteq> b" by auto
        with that show ?thesis by (simp add: m3(4)[rule_format] m2(4))
      qed
      have live3: "live m3 (buffer (data v)) 0 (vsize v)"
        unfolding sp_def[symmetric] n_def[symmetric]
        by (rule live_transfer[OF src(2)]) (simp add: c3)
      have fit: "vsize v \<le> capacity (data v)" using ok by (simp add: vec_ok_def)
      obtain m4 where rb: "replace_block v ?tmp m3 = (Inr (), v\<lparr>data := ?tmp\<rparr>, m4)"
        and m4: "next_block m4 = next_block m3" "block_size m4 = block_size m3"
          "\<forall>c. released m4 c = (released m3 c \<or> Some c = buffer (data v))"
          "\<forall>c q. cell m4 c q = (if Some c = buffer (data v) \<and> q < vsize v then None else cell m3 c q)"
          "trace m4 = trace m3 @ map (\<lambda>t. EvDestroy (Cell (buffer (data v)) t)) [0..<vsize v]"
        using replace_block_ok[OF raw3 fit live3, of ?tmp] by blast
      have res: "Emplace_grow T index a v m = (Inr (), v\<lparr>data := ?tmp\<rparr>, m4)"
        unfolding unf using Inr rb by simp
      have none: "sp = None \<Longrightarrow> n = 0"
        using ok by (simp add: vec_ok_def raw_ok_def sp_def n_def)
      have cells: "\<forall>q. cell m4 b q =
         (if q < index then cell m (the sp) q
          else if q = index then Some x
          else if q \<le> n then cell m (the sp) (q - 1)
          else None)"
        using m4(4) m3(4) m2(4) ne old idx none unfolding sp_def[symmetric] n_def[symmetric]
        by (cases sp) auto
      have "regrown v m nc index (Some x) (v\<lparr>data := ?tmp\<rparr>) m4"
        using cells m4 m3 ne unfolding regrown_def b_def[symmetric] sp_def[symmetric] n_def[symmetric]
        by auto
      moreover have "trace m4 = trace m
          @ [EvOp (arg_kind a) Outside (Cell (Some b) index)]
          @ map (\<lambda>t. EvOp (transplant_kind T) (Cell sp t) (Cell (Some b) t)) [0..<index]
          @ map (\<lambda>t. EvOp (transplant_kind T) (Cell sp (index + t)) (Cell (Some b) (index + 1 + t))) [0..<n - index]
          @ map (\<lambda>t. EvDestroy (Cell sp t)) [0..<n]"
        using m4(5) m3(5) m2(5) by (simp add: sp_def n_def)
      ultimately show ?thesis
        using res by (simp add: nc_def b_def sp_def n_def)
    qed
  qed
qed

lemma elements_length [simp]: "vec_ok m v \<Longrightarrow> length (elements m v) = vsize v"
  by (auto simp: elements_def vec_ok_def raw_ok_def split: option.splits)

lemma elements_nth:
  "buffer (data v) = Some a \<Longrightarrow> i < vsize v \<Longrightarrow> elements m v ! i = cell m a i"
  by (simp add: elements_def)

lemma vec_ok_no_buffer: "vec_ok m v \<Longrightarrow> buffer (data v) = None \<Longrightarrow> vsize v = 0"
  by (simp add: vec_ok_def raw_ok_def)

lemma inserted_elements:
  assumes ok: "vec_ok m v" and idx: "idx \<le> vsize v"
    and v2: "buffer (data v2) = Some b" "vsize v2 = Suc (vsize v)" "raw_ok m' (data v2)"
      "Suc (vsize v) \<le> capacity (data v2)"
    and cells: "\<And>q. q \<le> vsize v \<Longrightarrow> cell m' b q =
         (if q < idx then cell m (the (buffer (data v))) q
          else if q = idx then Some x
          else cell m (the (buffer (data v))) (q - 1))"
  shows "vec_ok m' v2"
    and "elements m' v2 = take idx (elements m v) @ [Some x] @ drop idx (elements m v)"
proof -
  define n where "n = vsize v"
  have old: "\<exists>y. cell m (the (buffer (data v))) q = Some y" if "q < n" for q
    using ok that by (auto simp: vec_ok_def live_def n_def)
  have "\<exists>y. cell m' b q = Some y" if "q < Suc n" for q
    using that old[of q] old[of "q - 1"] idx cells[of q] by (auto simp: n_def)
  then show "vec_ok m' v2"
    using v2 by (auto simp: vec_ok_def live_def n_def)
  have len: "length (elements m' v2) = Suc n"
    by (simp add: elements_def v2 n_def)
  show "elements m' v2 = take idx (elements m v) @ [Some x] @ drop idx (elements m v)"
  proof (rule nth_equalityI)
    show "length (elements m' v2) = length (take idx (elements m v) @ [Some x] @ drop idx (elements m v))"
      using ok idx by (simp add: len n_def)
  next
    fix i assume "i < length (elements m' v2)"
    then have i: "i < Suc n" by (simp add: len)
    then have c: "cell m' b i = (if i < idx then cell m (the (buffer (data v))) i
          else if i = idx then Some x
          else cell m (the (buffer (data v))) (i - 1))"
      using cells[of i] by (simp add: n_def)
    have lhs: "elements m' v2 ! i = cell m' b i"
      using i by (simp add: elements_def v2 n_def del: upt_Suc)
    show "elements m' v2 ! i = (take idx (elements m v) @ [Some x] @ drop idx (elements m v)) ! i"
    proof (cases "buffer (data v)")
      case None
      with ok have "n = 0" by (simp add: vec_ok_no_buffer n_def)
      with i idx show ?thesis unfolding lhs c by (simp add: n_def)
    next
      case (Some a)
      have el: "elements m v ! j = cell m a j" if "j < n" for j
        using that Some by (simp add: elements_nth n_def)
      show ?thesis
        unfolding lhs c using i idx ok Some
        by (auto simp: nth_append el n_def min_def elements_nth)
    qed
  qed
qed

lemma regrown_elements:
  assumes g: "regrown v m nc idx (Some x) v' m'" and ok: "vec_ok m v"
    and idx: "idx \<le> vsize v" and nc: "vsize v < nc"
  shows "vec_ok m' (v'\<lparr>vsize := vsize v + 1\<rparr>)"
    and "elements m' (v'\<lparr>vsize := vsize v + 1\<rparr>) = take idx (elements m v) @ [Some x] @ drop idx (elements m v)"
proof -
  define v2 where "v2 = v'\<lparr>vsize := vsize v + 1\<rparr>"
  from g have v2: "buffer (data v2) = Some (next_block m)" "vsize v2 = Suc (vsize v)"
      "raw_ok m' (data v2)" "Suc (vsize v) \<le> capacity (data v2)"
    and cells: "\<And>q. q \<le> vsize v \<Longrightarrow> cell m' (next_block m) q =
         (if q < idx then cell m (the (buffer (data v))) q
          else if q = idx then Some x
          else cell m (the (buffer (data v))) (q - 1))"
    using nc by (simp_all add: regrown_def v2_def raw_ok_def)
  from inserted_elements[OF ok idx v2 cells]
  show "vec_ok m' (v'\<lparr>vsize := vsize v + 1\<rparr>)"
    and "elements m' (v'\<lparr>vsize := vsize v + 1\<rparr>) = take idx (elements m v) @ [Some x] @ drop idx (elements m v)"
    by (simp_all add: v2_def)
qed

section \<open>Shifting elements inside a block\<close>

lemma live_range: "live m (Some b) lo n \<Longrightarrow> lo \<le> q \<Longrightarrow> q < lo + n \<Longrightarrow> \<exists>x. cell m b q = Some x"
  unfolding live_def by (drule spec[of _ q]) simp

lemma shift_right_step:
  assumes inv: "shifted_right T b hi m j s"
    and b: "b < next_block m" "\<not> released m b" "hi < block_size m b"
    and lv: "live m (Some b) lo (Suc hi - lo)" and lo: "lo \<le> hi" and j: "j < hi - lo"
  shows "case assign_at T MoveAssign (At (Some b) (hi - Suc j)) (Some b) (Suc hi - Suc j) s of
           (Inr _, s') \<Rightarrow> shifted_right T b hi m (Suc j) s'
         | (Inl f, s') \<Rightarrow> \<not> never_throws T"
proof -
  have range: "lo \<le> hi - Suc j" "hi - Suc j < hi - j" "hi - j \<le> hi" using j lo by auto
  have "hi - Suc j < lo + (Suc hi - lo)" "lo \<le> hi - j" "hi - j < lo + (Suc hi - lo)"
    using j lo by arith+
  with range obtain x y where x: "cell m b (hi - Suc j) = Some x" and y: "cell m b (hi - j) = Some y"
    using live_range[OF lv, of "hi - Suc j"] live_range[OF lv, of "hi - j"] by blast
  have sx: "cell s b (hi - Suc j) = Some x"
    using inv x range by (auto simp: shifted_right_def)
  have "\<exists>y'. cell s b (hi - j) = Some y'"
    using inv y range by (cases "0 < j") (auto simp: shifted_right_def)
  then obtain y' where sy: "cell s b (hi - j) = Some y'" ..
  have ib: "in_block s b (hi - j)" "in_block s b (hi - Suc j)"
    using inv b by (auto simp: shifted_right_def in_block_def)
  have eq: "Suc hi - Suc j = hi - j" by simp
  show ?thesis
  proof (cases "raises T (trace s) MoveAssign x")
    case True
    with raises_not_never[OF True] show ?thesis
      unfolding eq by (simp add: assign_at_cell[OF ib(1) sy ib(2) sx])
  next
    case False
    have "shifted_right T b hi m (Suc j)
       (log (EvOp MoveAssign (Cell (Some b) (hi - Suc j)) (Cell (Some b) (hi - j)))
          (put (Some b) (hi - j) (Some x) (put (Some b) (hi - Suc j) (Some (moved_from T x)) s)))"
      using inv x range j unfolding shifted_right_def
      by (auto simp: Suc_diff_Suc)
    with False show ?thesis
      unfolding eq by (simp add: assign_at_cell[OF ib(1) sy ib(2) sx])
  qed
qed

lemma move_backward_ok:
  assumes b: "b < next_block m" "\<not> released m b" "hi < block_size m b"
    and lv: "live m (Some b) lo (Suc hi - lo)" and lo: "lo \<le> hi"
  shows "case move_backward T (Some b) lo hi (Suc hi) m of
           (Inr _, m') \<Rightarrow> shifted_right T b hi m (hi - lo) m'
         | (Inl f, m') \<Rightarrow> \<not> never_throws T"
proof -
  have "case steps (\<lambda>k. assign_at T MoveAssign (At (Some b) (hi - Suc k)) (Some b) (Suc hi - Suc k)) 0 (hi - lo) m of
           (Inr _, j, m') \<Rightarrow> j = 0 + (hi - lo) \<and> shifted_right T b hi m j m'
         | (Inl f, j, m') \<Rightarrow> 0 \<le> j \<and> j < 0 + (hi - lo) \<and> \<not> never_throws T"
    by (rule steps_cases[where I = "shifted_right T b hi m" and E = "\<lambda>_ _ _. \<not> never_throws T"])
       (use shift_right_step[OF _ b lv lo] in \<open>auto simp: shifted_right_def\<close>)
  then show ?thesis
    using lo by (auto simp: move_backward_def split: prod.splits sum.splits)
qed

lemma shift_left_step:
  assumes inv: "shifted_left T b lo m j s"
    and b: "b < next_block m" "\<not> released m b" "hi \<le> block_size m b"
    and lv: "live m (Some b) lo (hi - lo)" and j: "Suc j < hi - lo"
  shows "case assign_at T MoveAssign (At (Some b) (lo + 1 + j)) (Some b) (lo + j) s of
           (Inr _, s') \<Rightarrow> shifted_left T b lo m (Suc j) s'
         | (Inl f, s') \<Rightarrow> \<not> never_throws T"
proof -
  have eq: "lo + 1 + j = Suc (lo + j)" by simp
  have "lo \<le> Suc (lo + j)" "Suc (lo + j) < lo + (hi - lo)" "lo \<le> lo + j" "lo + j < lo + (hi - lo)"
    using j by arith+
  then obtain x y where x: "cell m b (Suc (lo + j)) = Some x" and y: "cell m b (lo + j) = Some y"
    using live_range[OF lv, of "Suc (lo + j)"] live_range[OF lv, of "lo + j"] by blast
  have sx: "cell s b (Suc (lo + j)) = Some x"
    using inv x by (auto simp: shifted_left_def)
  have "\<exists>y'. cell s b (lo + j) = Some y'"
    using inv y by (cases "0 < j") (auto simp: shifted_left_def)
  then obtain y' where sy: "cell s b (lo + j) = Some y'" ..
  have ib: "in_block s b (lo + j)" "in_block s b (Suc (lo + j))"
    using inv b j by (auto simp: shifted_left_def in_block_def)
  show ?thesis
  proof (cases "raises T (trace s) MoveAssign x")
    case True
    with raises_not_never[OF True] show ?thesis
      unfolding eq by (simp add: assign_at_cell[OF ib(1) sy ib(2) sx])
  next
    case False
    have "shifted_left T b lo m (Suc j)
       (log (EvOp MoveAssign (Cell (Some b) (Suc (lo + j))) (Cell (Some b) (lo + j)))
          (put (Some b) (lo + j) (Some x) (put (Some b) (Suc (lo + j)) (Some (moved_from T x)) s)))"
      using inv x unfolding shifted_left_def
      by (auto simp: less_Suc_eq)
    with False show ?thesis
      unfolding eq by (simp add: assign_at_cell[OF ib(1) sy ib(2) sx])
  qed
qed

lemma move_range_ok:
  assumes b: "b < next_block m" "\<not> released m b" "hi \<le> block_size m b"
    and lv: "live m (Some b) lo (hi - lo)" and lo: "lo < hi"
  shows "case move_range T (Some b) (lo + 1) hi lo m of
           (Inr _, m') \<Rightarrow> shifted_left T b lo m (hi - (lo + 1)) m'
         | (Inl f, m') \<Rightarrow> \<not> never_throws T"
proof -
  have "case steps (\<lambda>k. assign_at T MoveAssign (At (Some b) (lo + 1 + k)) (Some b) (lo + k)) 0 (hi - (lo + 1)) m of
           (Inr _, j, m') \<Rightarrow> j = 0 + (hi - (lo + 1)) \<and> shifted_left T b lo m j m'
         | (Inl f, j, m') \<Rightarrow> 0 \<le> j \<and> j < 0 + (hi - (lo + 1)) \<and> \<not> never_throws T"
    by (rule steps_cases[where I = "shifted_left T b lo m" and E = "\<lambda>_ _ _. \<not> never_throws T"])
       (use shift_left_step[OF _ b lv] in \<open>auto simp: shifted_left_def\<close>)
  then show ?thesis
    using lo by (auto simp: move_range_def split: prod.splits sum.splits)
qed

section \<open>Insertion without reallocation\<close>

lemma transfer_outside:
  assumes "outside a x"
  shows "(case a of ConstRef r \<Rightarrow> (CopyCtor, r) | RvalueRef r \<Rightarrow> (MoveCtor, r)) = (arg_kind a, Ext x)"
    and "transfer T (arg_kind a) (Ext x) m =
      (if raises T (trace m) (arg_kind a) x then (Inl (Thrown (arg_kind a)), log (EvThrow (arg_kind a)) m)
       else (Inr x, m))"
  using assms by (auto simp: outside_def arg_kind_def transfer_def load_def leave_moved_def)

lemma assign_temp_ok:
  assumes a: "outside a x" and ib: "in_block m b i" and c: "cell m b i = Some y"
    and d: "buffer d = Some b" "i < capacity d"
  shows "case assign_temp T a d i m of
           (Inr _, m') \<Rightarrow> next_block m' = next_block m \<and> block_size m' = block_size m \<and>
              released m' = released m \<and>
              (\<forall>c q. cell m' c q = (if c = b \<and> q = i then Some x else cell m c q))
         | (Inl f, m') \<Rightarrow> \<not> never_throws T"
proof (cases "raises T (trace m) (arg_kind a) x")
  case True
  with raises_not_never[OF True] show ?thesis
    by (simp add: assign_temp_def transfer_outside[OF a])
next
  case False
  define m1 where "m1 = log (EvOp (arg_kind a) Outside Temp) m"
  have ib1: "in_block m1 b i" and c1: "cell m1 b i = Some y"
    using ib c by (simp_all add: m1_def)
  show ?thesis
  proof (cases "raises T (trace m1) MoveAssign x")
    case True
    with raises_not_never[OF True] False show ?thesis
      by (simp add: assign_temp_def transfer_outside[OF a] loc_of_def m1_def[symmetric]
          RawMemory_index_def d assign_at_tmp[OF ib1 c1])
  next
    case r2: False
    with False show ?thesis
      by (simp add: assign_temp_def transfer_outside[OF a] loc_of_def m1_def[symmetric]
          RawMemory_index_def d assign_at_tmp[OF ib1 c1]) (simp add: m1_def)
  qed
qed

lemma live_sub:
  "live m p i n \<Longrightarrow> i \<le> i' \<Longrightarrow> i' + n' \<le> i + n \<Longrightarrow> live m p i' n'"
  by (auto simp: live_def)

lemma Emplace_shift_ok:
  assumes ok: "vec_ok m v" and idx: "index < vsize v" and spare: "vsize v < capacity (data v)"
    and a: "outside a x"
  shows "case Emplace_shift T index a v m of
     (Inr _, v', m') \<Rightarrow>
        v' = v \<and> next_block m' = next_block m \<and> block_size m' = block_size m \<and> released m' = released m \<and>
        (\<forall>q. cell m' (the (buffer (data v))) q =
           (if q < index then cell m (the (buffer (data v))) q
            else if q = index then Some x
            else if q \<le> vsize v then cell m (the (buffer (data v))) (q - 1)
            else cell m (the (buffer (data v))) q))
   | (Inl f, v', m') \<Rightarrow> \<not> never_throws T"
proof -
  obtain p where p: "vsize v = Suc p" using idx by (cases "vsize v") auto
  obtain b where b: "buffer (data v) = Some b"
    using ok spare by (cases "buffer (data v)") (auto simp: vec_ok_def raw_ok_def)
  note blk = vec_ok_old_block[OF ok b]
  have lv: "live m (Some b) 0 (Suc p)" using ok b by (simp add: vec_ok_def p)
  have n: "index \<le> p" "Suc p < block_size m b" using idx spare blk by (simp_all add: p)
  obtain y where y: "cell m b p = Some y"
    using live_range[OF lv, of p] by auto
  have ib: "in_block m b (Suc p)" "in_block m b p"
    using blk n by (simp_all add: in_block_def)
  have unf: "Emplace_shift T index a v m =
     (case construct_at T MoveCtor (At (Some b) p) (Some b) (Suc p) m of
        (Inl f, m1) \<Rightarrow> (Inl f, v, m1)
      | (Inr _, m1) \<Rightarrow>
          (case move_backward T (Some b) index p (Suc p) m1 of
             (Inl f, m2) \<Rightarrow> (Inl f, v, m2)
           | (Inr _, m2) \<Rightarrow>
               (case assign_temp T a (data v) index m2 of
                  (Inl f, m3) \<Rightarrow> (Inl f, v, m3)
                | (Inr _, m3) \<Rightarrow> (Inr (), v, m3))))"
    by (simp add: Emplace_shift_def GetAddress_def b p cong: prod.case_cong sum.case_cong)
  show ?thesis
  proof (cases "raises T (trace m) MoveCtor y")
    case True
    with raises_not_never[OF True] show ?thesis
      unfolding unf by (simp add: construct_at_cell[OF ib y])
  next
    case False
    define m1 where "m1 = log (EvOp MoveCtor (Cell (Some b) p) (Cell (Some b) (Suc p)))
        (put (Some b) (Suc p) (Some y) (put (Some b) p (Some (moved_from T y)) m))"
    have c1: "construct_at T MoveCtor (At (Some b) p) (Some b) (Suc p) m = (Inr (), m1)"
      using False by (simp add: construct_at_cell[OF ib y] m1_def)
    have m1: "next_block m1 = next_block m" "block_size m1 = block_size m" "released m1 = released m"
      "\<And>c q. cell m1 c q = (if c = b \<and> q = Suc p then Some y
                              else if c = b \<and> q = p then Some (moved_from T y) else cell m c q)"
      by (auto simp: m1_def)
    have lv1: "live m1 (Some b) index (Suc p - index)"
      by (rule live_sub[of _ _ 0 "Suc p"], rule live_transfer[OF lv]) (use n in \<open>auto simp: m1\<close>)
    have b1: "b < next_block m1" "\<not> released m1 b" "p < block_size m1 b"
      using blk n by (simp_all add: m1)
    note mb = move_backward_ok[OF b1 lv1 n(1), of T]
    obtain r2 m2 where s2: "move_backward T (Some b) index p (Suc p) m1 = (r2, m2)"
      by (cases "move_backward T (Some b) index p (Suc p) m1") auto
    show ?thesis
    proof (cases r2)
      case (Inl f)
      with mb s2 show ?thesis unfolding unf by (simp add: c1)
    next
      case (Inr u)
      with mb s2 have sh: "shifted_right T b p m1 (p - index) m2" by simp
      then have m2: "next_block m2 = next_block m" "block_size m2 = block_size m" "released m2 = released m"
        and cells2: "\<And>q. cell m2 b q =
         (if p - (p - index) < q \<and> q \<le> p then cell m1 b (q - 1)
          else if q = p - (p - index) \<and> 0 < p - index then map_option (moved_from T) (cell m1 b q)
          else cell m1 b q)"
        by (simp_all add: shifted_right_def m1)
      have pi: "p - (p - index) = index" using n by simp
      obtain z where zi: "cell m b index = Some z"
        using live_range[OF lv, of index] n by auto
      have ci: "\<exists>w. cell m2 b index = Some w"
        using zi n by (auto simp: cells2 pi m1)
      then obtain w where w: "cell m2 b index = Some w" ..
      have ib2: "in_block m2 b index" using blk n by (simp add: in_block_def m2)
      have cap: "index < capacity (data v)" using idx spare by simp
      note at = assign_temp_ok[OF a ib2 w b cap, of T]
      obtain r3 m3 where s3: "assign_temp T a (data v) index m2 = (r3, m3)"
        by (cases "assign_temp T a (data v) index m2") auto
      show ?thesis
      proof (cases r3)
        case (Inl f)
        with at s3 show ?thesis unfolding unf by (simp add: c1 s2 \<open>r2 = Inr u\<close>)
      next
        case (Inr u3)
        with at s3 have m3: "next_block m3 = next_block m" "block_size m3 = block_size m"
          "released m3 = released m"
          and cells3: "\<And>q. cell m3 b q = (if q = index then Some x else cell m2 b q)"
          by (simp_all add: m2)
        have "\<forall>q. cell m3 b q =
           (if q < index then cell m b q
            else if q = index then Some x
            else if q \<le> Suc p then cell m b (q - 1)
            else cell m b q)"
          using n y by (auto simp: cells3 cells2 pi m1)
        then show ?thesis
          unfolding unf using m3 by (simp add: c1 s2 \<open>r2 = Inr u\<close> s3 Inr b p)
      qed
    qed
  qed
qed

section \<open>Insert and Emplace: the calls that return\<close>

lemma Emplace_ok:
  assumes ok: "vec_ok m v" and idx: "index \<le> vsize v" and a: "outside a x"
  shows "case Emplace T index a v m of
     (Inr ptr, v', m') \<Rightarrow>
        ptr = (buffer (data v'), index) \<and> vsize v' = vsize v + 1 \<and> vec_ok m' v' \<and>
        elements m' v' = take index (elements m v) @ [Some x] @ drop index (elements m v)
   | (Inl f, v', m') \<Rightarrow> \<not> never_throws T"
proof -
  consider (grow) "vsize v = capacity (data v)"
    | (shift) "vsize v \<noteq> capacity (data v)" "index \<noteq> vsize v"
    | (append) "vsize v \<noteq> capacity (data v)" "index = vsize v" by blast
  then show ?thesis
  proof cases
    case grow
    define nc where "nc = (if vsize v = 0 then 1 else vsize v * 2)"
    have nc: "vsize v < nc" by (simp add: nc_def)
    obtain r1 v1 m1 where g: "Emplace_grow T index a v m = (r1, v1, m1)"
      by (cases "Emplace_grow T index a v m") auto
    have unf: "Emplace T index a v m =
       (case r1 of Inl f \<Rightarrow> (Inl f, v1, m1)
        | Inr _ \<Rightarrow> (Inr (GetAddress (data v1), index), v1\<lparr>vsize := vsize v1 + 1\<rparr>, m1))"
      using idx grow g by (simp add: Emplace_def Capacity_def split: sum.split)
    show ?thesis
    proof (cases r1)
      case (Inl f)
      with Emplace_grow_ok[OF ok idx a, of T] g show ?thesis unfolding unf by simp
    next
      case (Inr u)
      with Emplace_grow_ok[OF ok idx a, of T] g have rg: "regrown v m nc index (Some x) v1 m1"
        by (simp add: nc_def)
      then have v1: "vsize v1 = vsize v" by (simp add: regrown_def)
      from regrown_elements[OF rg ok idx nc] show ?thesis
        unfolding unf using Inr by (simp add: v1 GetAddress_def)
    qed
  next
    case shift
    with idx have lt: "index < vsize v" by simp
    have spare: "vsize v < capacity (data v)" using shift ok by (simp add: vec_ok_def)
    obtain b where b: "buffer (data v) = Some b"
      using ok spare by (cases "buffer (data v)") (auto simp: vec_ok_def raw_ok_def)
    obtain r1 v1 m1 where g: "Emplace_shift T index a v m = (r1, v1, m1)"
      by (cases "Emplace_shift T index a v m") auto
    have unf: "Emplace T index a v m =
       (case r1 of Inl f \<Rightarrow> (Inl f, v1, m1)
        | Inr _ \<Rightarrow> (Inr (GetAddress (data v1), index), v1\<lparr>vsize := vsize v1 + 1\<rparr>, m1))"
      using idx shift g by (simp add: Emplace_def Capacity_def split: sum.split)
    show ?thesis
    proof (cases r1)
      case (Inl f)
      with Emplace_shift_ok[OF ok lt spare a, of T] g show ?thesis unfolding unf by simp
    next
      case (Inr u)
      with Emplace_shift_ok[OF ok lt spare a, of T] g
      have v1: "v1 = v" and m1: "next_block m1 = next_block m" "block_size m1 = block_size m"
          "released m1 = released m"
        and cells: "\<And>q. cell m1 b q =
           (if q < index then cell m b q
            else if q = index then Some x
            else if q \<le> vsize v then cell m b (q - 1)
            else cell m b q)"
        by (simp_all add: b)
      define v2 where "v2 = v\<lparr>vsize := vsize v + 1\<rparr>"
      have raw: "raw_ok m1 (data v2)"
        using ok m1 by (simp add: v2_def vec_ok_def raw_ok_def split: option.splits)
      have "vec_ok m1 v2 \<and> elements m1 v2 = take index (elements m v) @ [Some x] @ drop index (elements m v)"
        using inserted_elements[OF ok idx, of v2 b m1 x] raw spare
        by (simp add: v2_def b cells)
      then show ?thesis
        unfolding unf using Inr by (simp add: v1 v2_def GetAddress_def)
    qed
  next
    case append
    have spare: "vsize v < capacity (data v)" using append ok by (simp add: vec_ok_def)
    obtain b where b: "buffer (data v) = Some b"
      using ok spare by (cases "buffer (data v)") (auto simp: vec_ok_def raw_ok_def)
    note blk = vec_ok_old_block[OF ok b]
    have ib: "in_block m b (vsize v)" using blk spare by (simp add: in_block_def)
    note i = append(2)
    show ?thesis
    proof (cases "raises T (trace m) (arg_kind a) x")
      case True
      with raises_not_never[OF True] show ?thesis
        unfolding i using append(1)
        by (simp add: Emplace_def Capacity_def GetAddress_def b construct_arg_outside[OF a ib])
    next
      case False
      define m1 where "m1 = log (EvOp (arg_kind a) Outside (Cell (Some b) (vsize v))) (put (Some b) (vsize v) (Some x) m)"
      define v2 where "v2 = v\<lparr>vsize := vsize v + 1\<rparr>"
      have res: "Emplace T (vsize v) a v m = (Inr (Some b, vsize v), v2, m1)"
        using append(1) False
        by (simp add: Emplace_def Capacity_def GetAddress_def b construct_arg_outside[OF a ib] m1_def v2_def)
      have raw: "raw_ok m1 (data v2)"
        using ok by (simp add: v2_def m1_def vec_ok_def raw_ok_def split: option.splits)
      have "vec_ok m1 v2 \<and> elements m1 v2 = take (vsize v) (elements m v) @ [Some x] @ drop (vsize v) (elements m v)"
        using inserted_elements[OF ok order_refl, of v2 b m1 x] raw spare
        by (simp add: v2_def b m1_def)
      then show ?thesis
        unfolding i res by (simp add: v2_def b)
    qed
  qed
qed

section \<open>Erase: the calls that return\<close>

lemma Erase_ok:
  assumes ok: "vec_ok m v" and idx: "index < vsize v"
  shows "case Erase T index v m of
     (Inr ptr, v', m') \<Rightarrow>
        ptr = (buffer (data v'), index) \<and> vsize v' = vsize v - 1 \<and> data v' = data v \<and> vec_ok m' v' \<and>
        elements m' v' = take index (elements m v) @ drop (Suc index) (elements m v)
   | (Inl f, v', m') \<Rightarrow> \<not> never_throws T"
proof -
  obtain p where p: "vsize v = Suc p" using idx by (cases "vsize v") auto
  have ip: "index \<le> p" using idx p by simp
  obtain b where b: "buffer (data v) = Some b"
    using ok idx by (cases "buffer (data v)") (auto simp: vec_ok_def raw_ok_def)
  note blk = vec_ok_old_block[OF ok b]
  have fit: "Suc p \<le> capacity (data v)" using ok p by (simp add: vec_ok_def)
  have lv: "live m (Some b) 0 (Suc p)" using ok b by (simp add: vec_ok_def p)
  have lv': "live m (Some b) index (Suc p - index)"
    by (rule live_sub[OF lv]) (use ip in auto)
  have b1: "b < next_block m" "\<not> released m b" "Suc p \<le> block_size m b"
    using blk fit by simp_all
  have lt: "index < Suc p" using ip by simp
  note mr = move_range_ok[OF b1 lv' lt, of T]
  obtain r1 m1 where s1: "move_range T (Some b) (index + 1) (Suc p) index m = (r1, m1)"
    by (cases "move_range T (Some b) (index + 1) (Suc p) index m") auto
  have unf: "Erase T index v m =
     (case r1 of Inl f \<Rightarrow> (Inl f, v, m1)
      | Inr _ \<Rightarrow>
          (case destroy_at (Some b) p m1 of
             (Inl f, m2) \<Rightarrow> (Inl f, v, m2)
           | (Inr _, m2) \<Rightarrow> (Inr (Some b, index), v\<lparr>vsize := p\<rparr>, m2)))"
    using s1 fit
    by (simp add: Erase_def GetAddress_def b p RawMemory_index_def split: sum.split
        cong: prod.case_cong sum.case_cong)
  show ?thesis
  proof (cases r1)
    case (Inl f)
    with mr s1 show ?thesis unfolding unf by simp
  next
    case (Inr u)
    with mr s1 have sh: "shifted_left T b index m (p - index) m1" by simp
    then have m1: "next_block m1 = next_block m" "block_size m1 = block_size m" "released m1 = released m"
      and cells1: "\<And>q. cell m1 b q =
         (if index \<le> q \<and> q < index + (p - index) then cell m b (q + 1)
          else if q = index + (p - index) \<and> 0 < p - index then map_option (moved_from T) (cell m b q)
          else cell m b q)"
      by (simp_all add: shifted_left_def)
    have pi: "index + (p - index) = p" using ip by simp
    obtain z where z: "cell m b p = Some z" using live_range[OF lv, of p] by auto
    have "\<exists>w. cell m1 b p = Some w" using z by (simp add: cells1 pi)
    then obtain w where w: "cell m1 b p = Some w" ..
    have ib: "in_block m1 b p" using b1 by (simp add: in_block_def m1)
    define m2 where "m2 = log (EvDestroy (Cell (Some b) p)) (put (Some b) p None m1)"
    define v2 where "v2 = v\<lparr>vsize := p\<rparr>"
    have res: "Erase T index v m = (Inr (Some b, index), v2, m2)"
      unfolding unf using Inr by (simp add: destroy_at_cell[OF ib w] m2_def v2_def)
    have cells2: "cell m2 b q = (if q < index then cell m b q else cell m b (Suc q))" if "q < p" for q
      using that by (simp add: m2_def cells1 pi)
    have old: "\<exists>y. cell m b q = Some y" if "q < Suc p" for q
      using live_range[OF lv, of q] that by simp
    have okv: "vec_ok m2 v2"
      using blk fit old by (auto simp: vec_ok_def raw_ok_def live_def v2_def b m2_def m1 cells1 pi cells2)
    have el: "elements m2 v2 = take index (elements m v) @ drop (Suc index) (elements m v)"
    proof (rule nth_equalityI)
      show "length (elements m2 v2) = length (take index (elements m v) @ drop (Suc index) (elements m v))"
        using ok okv ip by (simp add: p) (simp add: v2_def)
    next
      fix i assume "i < length (elements m2 v2)"
      with okv have i: "i < p" by (simp add: v2_def)
      have lhs: "elements m2 v2 ! i = cell m2 b i"
        using i by (simp add: elements_nth v2_def b)
      have el: "elements m v ! j = cell m b j" if "j < Suc p" for j
        using that b by (simp add: elements_nth p)
      show "elements m2 v2 ! i = (take index (elements m v) @ drop (Suc index) (elements m v)) ! i"
        unfolding lhs using i ip ok
        by (auto simp: cells2 nth_append el min_def p)
    qed
    from okv el show ?thesis
      unfolding res by (simp add: v2_def b p)
  qed
qed

lemma Erase_empty: "vsize v = 0 \<Longrightarrow> Erase T index v m = (Inl AssertFailed, v, m)"
  by (simp add: Erase_def)

section \<open>Reserve and EmplaceBack: the calls that return\<close>

lemma transplant_all_ok:
  assumes raw: "raw_ok m (data v)" and fit: "vsize v \<le> capacity (data v)"
    and lv: "live m (buffer (data v)) 0 (vsize v)"
    and dst: "room m (Some b) 0 (vsize v)" and ne: "buffer (data v) \<noteq> Some b"
  shows "case (if nothrow_move_constructible T \<or> \<not> copy_constructible T
               then uninitialized_move_n T (GetAddress (data v)) 0 (vsize v) (Some b) 0 m
               else uninitialized_copy_n T (GetAddress (data v)) 0 (vsize v) (Some b) 0 m) of
           (Inl f, m1) \<Rightarrow> \<not> never_throws T
         | (Inr _, m1) \<Rightarrow>
             (\<exists>m2. replace_block v nd m1 = (Inr (), v\<lparr>data := nd\<rparr>, m2) \<and>
                next_block m2 = next_block m \<and> block_size m2 = block_size m \<and>
                (\<forall>c. released m2 c = (released m c \<or> Some c = buffer (data v))) \<and>
                (\<forall>q. cell m2 b q = (if q < vsize v then cell m (the (buffer (data v))) q else cell m b q)) \<and>
                trace m2 = trace m
                  @ map (\<lambda>t. EvOp (transplant_kind T) (Cell (buffer (data v)) t) (Cell (Some b) t)) [0..<vsize v]
                  @ map (\<lambda>t. EvDestroy (Cell (buffer (data v)) t)) [0..<vsize v])"
proof -
  define K where "K = transplant_kind T"
  define sp where "sp = buffer (data v)"
  define n where "n = vsize v"
  have K: "K = CopyCtor \<or> K = MoveCtor" by (simp add: K_def transplant_kind_def)
  have rm: "room m sp 0 n" using raw_ok_room[OF raw, of 0 n] fit by (simp add: sp_def n_def)
  let ?tp = "if K = MoveCtor then uninitialized_move_n T sp 0 n (Some b) 0 m
             else uninitialized_copy_n T sp 0 n (Some b) 0 m"
  have tp: "case ?tp of (Inr _, m') \<Rightarrow> transplanted T K sp 0 (Some b) 0 m n m'
         | (Inl f, m') \<Rightarrow> \<not> never_throws T"
    by (rule uninitialized_n_ok[OF K _ rm])
       (use lv dst ne in \<open>simp_all add: sp_def n_def\<close>)
  have same: "(if nothrow_move_constructible T \<or> \<not> copy_constructible T
               then uninitialized_move_n T (GetAddress (data v)) 0 (vsize v) (Some b) 0 m
               else uninitialized_copy_n T (GetAddress (data v)) 0 (vsize v) (Some b) 0 m) = ?tp"
    by (simp add: K_def transplant_kind_def GetAddress_def sp_def n_def)
  obtain r1 m1 where t1: "?tp = (r1, m1)" by (cases ?tp) auto
  show ?thesis
  proof (cases r1)
    case (Inl f)
    with tp t1 show ?thesis unfolding same by simp
  next
    case (Inr u)
    with tp t1 have t: "transplanted T K sp 0 (Some b) 0 m n m1" by simp
    then have m1: "next_block m1 = next_block m" "block_size m1 = block_size m" "released m1 = released m"
      and cells1: "\<And>c q. cell m1 c q =
         (if Some c = Some b \<and> 0 \<le> q \<and> q < 0 + n then cell m (the sp) (0 + (q - 0))
          else if Some c = sp \<and> K = MoveCtor \<and> 0 \<le> q \<and> q < 0 + n then map_option (moved_from T) (cell m c q)
          else cell m c q)"
      and tr1: "trace m1 = trace m @ map (\<lambda>t. EvOp K (Cell sp (0 + t)) (Cell (Some b) (0 + t))) [0..<n]"
      by (simp_all add: transplanted_def)
    have raw1: "raw_ok m1 (data v)"
      using raw m1 by (simp add: raw_ok_def split: option.splits)
    have lv1: "live m1 (buffer (data v)) 0 (vsize v)"
      by (rule live_transfer[OF lv]) (use ne in \<open>auto simp: cells1 sp_def\<close>)
    obtain m2 where rb: "replace_block v nd m1 = (Inr (), v\<lparr>data := nd\<rparr>, m2)"
      and m2: "next_block m2 = next_block m1" "block_size m2 = block_size m1"
        "\<forall>c. released m2 c = (released m1 c \<or> Some c = buffer (data v))"
        "\<forall>c q. cell m2 c q = (if Some c = buffer (data v) \<and> q < vsize v then None else cell m1 c q)"
        "trace m2 = trace m1 @ map (\<lambda>t. EvDestroy (Cell (buffer (data v)) t)) [0..<vsize v]"
      using replace_block_ok[OF raw1 fit lv1, of nd] by blast
    have "\<forall>q. cell m2 b q = (if q < vsize v then cell m (the (buffer (data v))) q else cell m b q)"
      using ne by (auto simp: m2(4) cells1 sp_def n_def)
    with rb m2 m1 tr1 show ?thesis
      unfolding same t1 Inr by (simp add: K_def sp_def n_def)
  qed
qed

lemma fresh_block_ok:
  assumes ok: "vec_ok m v"
    and m1: "next_block m1 = Suc (next_block m)" "block_size m1 = (block_size m)(next_block m := nc)"
      "released m1 = (released m)(next_block m := False)"
      "\<And>c q. c \<noteq> next_block m \<Longrightarrow> cell m1 c q = cell m c q"
    and n: "vsize v \<le> nc"
  shows "raw_ok m1 (data v)" "vsize v \<le> capacity (data v)" "live m1 (buffer (data v)) 0 (vsize v)"
    "room m1 (Some (next_block m)) 0 (vsize v)" "buffer (data v) \<noteq> Some (next_block m)"
proof -
  show ne: "buffer (data v) \<noteq> Some (next_block m)"
    using ok by (auto simp: vec_ok_def raw_ok_def)
  show "raw_ok m1 (data v)"
    using ok m1(1-3) by (auto simp: vec_ok_def raw_ok_def split: option.splits)
  show "vsize v \<le> capacity (data v)" using ok by (simp add: vec_ok_def)
  have lv: "live m (buffer (data v)) 0 (vsize v)" using ok by (simp add: vec_ok_def)
  show "live m1 (buffer (data v)) 0 (vsize v)"
    by (rule live_transfer[OF lv]) (use ne m1(4) in auto)
  show "room m1 (Some (next_block m)) 0 (vsize v)"
    using m1(1-3) n by (simp add: room_def)
qed

lemma Reserve_ok:
  assumes ok: "vec_ok m v" and big: "capacity (data v) < nc"
  shows "case Reserve T nc v m of
     (Inr _, v', m') \<Rightarrow>
        v' = v\<lparr>data := \<lparr>buffer = Some (next_block m), capacity = nc\<rparr>\<rparr> \<and>
        vec_ok m' v' \<and> elements m' v' = elements m v \<and>
        trace m' = trace m
          @ map (\<lambda>t. EvOp (transplant_kind T) (Cell (buffer (data v)) t) (Cell (Some (next_block m)) t)) [0..<vsize v]
          @ map (\<lambda>t. EvDestroy (Cell (buffer (data v)) t)) [0..<vsize v]
   | (Inl f, v', m') \<Rightarrow> \<not> never_throws T"
proof -
  define b where "b = next_block m"
  have nc: "0 < nc" "vsize v \<le> nc" using big ok by (auto simp: vec_ok_def)
  let ?nd = "\<lparr>buffer = Some b, capacity = nc\<rparr>"
  obtain m1 where new: "RawMemory_new nc m = (?nd, m1)"
    and m1: "next_block m1 = Suc b" "block_size m1 = (block_size m)(b := nc)"
      "released m1 = (released m)(b := False)" "cell m1 = (cell m)(b := (\<lambda>_. None))" "trace m1 = trace m"
    using RawMemory_new_fields[OF nc(1), of m] by (auto simp: b_def)
  have pre: "raw_ok m1 (data v)" "vsize v \<le> capacity (data v)" "live m1 (buffer (data v)) 0 (vsize v)"
    "room m1 (Some b) 0 (vsize v)" "buffer (data v) \<noteq> Some b"
    using fresh_block_ok[OF ok, of m1 nc] m1 nc(2) by (simp_all add: b_def)
  let ?tp = "if nothrow_move_constructible T \<or> \<not> copy_constructible T
               then uninitialized_move_n T (GetAddress (data v)) 0 (vsize v) (Some b) 0 m1
               else uninitialized_copy_n T (GetAddress (data v)) 0 (vsize v) (Some b) 0 m1"
  note ta = transplant_all_ok[OF pre, of T ?nd]
  obtain r2 m2 where t2: "?tp = (r2, m2)" by (cases ?tp) auto
  have unf: "Reserve T nc v m =
     (case r2 of Inl f \<Rightarrow> (case unwind f ?nd m2 of (g, m3) \<Rightarrow> (Inl g, v, m3))
      | Inr _ \<Rightarrow> replace_block v ?nd m2)"
    using big new t2
    by (cases "nothrow_move_constructible T \<or> \<not> copy_constructible T")
       (auto simp add: Reserve_def Capacity_def GetAddress_def split: sum.split)
  show ?thesis
  proof (cases r2)
    case (Inl f)
    with ta t2 show ?thesis unfolding unf by (simp split: prod.split)
  next
    case (Inr u)
    with ta t2 obtain m3 where rb: "replace_block v ?nd m2 = (Inr (), v\<lparr>data := ?nd\<rparr>, m3)"
      and m3: "next_block m3 = next_block m1" "block_size m3 = block_size m1"
        "\<forall>c. released m3 c = (released m1 c \<or> Some c = buffer (data v))"
        "\<forall>q. cell m3 b q = (if q < vsize v then cell m1 (the (buffer (data v))) q else cell m1 b q)"
        "trace m3 = trace m1
                  @ map (\<lambda>t. EvOp (transplant_kind T) (Cell (buffer (data v)) t) (Cell (Some b) t)) [0..<vsize v]
                  @ map (\<lambda>t. EvDestroy (Cell (buffer (data v)) t)) [0..<vsize v]"
      by auto
    define v2 where "v2 = v\<lparr>data := ?nd\<rparr>"
    have old: "\<exists>y. cell m (the (buffer (data v))) q = Some y \<and> buffer (data v) \<noteq> None" if "q < vsize v" for q
      using ok that by (auto simp: vec_ok_def live_def)
    have c3: "cell m3 b q = cell m (the (buffer (data v))) q" if "q < vsize v" for q
      using that old[OF that] pre(5) by (auto simp: m3(4)[rule_format] m1)
    have okv: "vec_ok m3 v2"
      using old nc pre(5) by (auto simp: vec_ok_def raw_ok_def live_def v2_def m3 m1 c3)
    have el: "elements m3 v2 = elements m v"
    proof (cases "buffer (data v)")
      case None
      with ok have "vsize v = 0" by (auto simp: vec_ok_def live_def)
      then show ?thesis by (simp add: elements_def v2_def None)
    next
      case (Some a)
      then show ?thesis using c3 by (simp add: elements_def v2_def)
    qed
    from okv el m3(5) show ?thesis
      unfolding unf Inr using rb by (simp add: v2_def b_def m1)
  qed
qed

lemma EmplaceBack_grow_ok:
  assumes ok: "vec_ok m v" and a: "outside a x"
  shows "case EmplaceBack_grow T a v m of
     (Inr _, v', m') \<Rightarrow>
        regrown v m (if vsize v = 0 then 1 else vsize v * 2) (vsize v) (Some x) v' m' \<and>
        trace m' = trace m
          @ [EvOp (arg_kind a) Outside (Cell (Some (next_block m)) (vsize v))]
          @ map (\<lambda>t. EvOp (transplant_kind T) (Cell (buffer (data v)) t) (Cell (Some (next_block m)) t)) [0..<vsize v]
          @ map (\<lambda>t. EvDestroy (Cell (buffer (data v)) t)) [0..<vsize v]
   | (Inl f, v', m') \<Rightarrow> \<not> never_throws T"
proof -
  define b where "b = next_block m"
  define n where "n = vsize v"
  define nc where "nc = (if n = 0 then 1 else n * 2)"
  have nc: "0 < nc" "n < nc" "n \<le> nc" by (auto simp: nc_def)
  let ?nd = "\<lparr>buffer = Some b, capacity = nc\<rparr>"
  obtain m1 where new: "RawMemory_new nc m = (?nd, m1)"
    and m1: "next_block m1 = Suc b" "block_size m1 = (block_size m)(b := nc)"
      "released m1 = (released m)(b := False)" "cell m1 = (cell m)(b := (\<lambda>_. None))" "trace m1 = trace m"
    using RawMemory_new_fields[OF nc(1), of m] by (auto simp: b_def)
  have plus: "RawMemory_plus ?nd n = Inr (Some b, n)" using nc by (simp add: RawMemory_plus_def)
  have ib: "in_block m1 b n" using nc by (simp add: in_block_def m1)
  note ca = construct_arg_outside[OF a ib, of T]
  let ?ev = "EvOp (arg_kind a) Outside (Cell (Some b) n)"
  define m2 where "m2 = log ?ev (put (Some b) n (Some x) m1)"
  have m2: "next_block m2 = Suc b" "block_size m2 = (block_size m)(b := nc)"
      "released m2 = (released m)(b := False)" "trace m2 = trace m @ [?ev]"
      "\<And>c q. c \<noteq> b \<Longrightarrow> cell m2 c q = cell m c q"
      "\<And>q. cell m2 b q = (if q = n then Some x else None)"
    by (simp_all add: m2_def m1)
  have pre: "raw_ok m2 (data v)" "vsize v \<le> capacity (data v)" "live m2 (buffer (data v)) 0 (vsize v)"
    "room m2 (Some b) 0 (vsize v)" "buffer (data v) \<noteq> Some b"
    using fresh_block_ok[OF ok, of m2 nc] m2 nc(3) by (simp_all add: b_def n_def)
  let ?tp = "if nothrow_move_constructible T \<or> \<not> copy_constructible T
               then uninitialized_move_n T (GetAddress (data v)) 0 (vsize v) (Some b) 0 m2
               else uninitialized_copy_n T (GetAddress (data v)) 0 (vsize v) (Some b) 0 m2"
  note ta = transplant_all_ok[OF pre, of T ?nd]
  show ?thesis
  proof (cases "raises T (trace m1) (arg_kind a) x")
    case True
    then have "\<not> never_throws T" by (rule raises_not_never)
    moreover have "\<exists>g m3. EmplaceBack_grow T a v m = (Inl g, v, m3)"
      unfolding EmplaceBack_grow_def n_def[symmetric] nc_def[symmetric]
      using True new plus ca by (auto split: prod.split)
    ultimately show ?thesis by auto
  next
    case False
    then have c2: "construct_arg T a (Some b) n m1 = (Inr (), m2)" using ca by (simp add: m2_def)
    obtain r3 m3 where t3: "?tp = (r3, m3)" by (cases ?tp) auto
    have unf: "EmplaceBack_grow T a v m =
       (case r3 of Inl f \<Rightarrow> (case unwind f ?nd m3 of (g, m4) \<Rightarrow> (Inl g, v, m4))
        | Inr _ \<Rightarrow> replace_block v ?nd m3)"
      unfolding EmplaceBack_grow_def n_def[symmetric] nc_def[symmetric]
      using new plus c2 t3[unfolded n_def[symmetric]]
      by (cases "nothrow_move_constructible T \<or> \<not> copy_constructible T")
         (auto simp add: GetAddress_def split: sum.split)
    show ?thesis
    proof (cases r3)
      case (Inl f)
      with ta t3 show ?thesis unfolding unf by (simp split: prod.split)
    next
      case (Inr u)
      with ta t3 obtain m4 where rb: "replace_block v ?nd m3 = (Inr (), v\<lparr>data := ?nd\<rparr>, m4)"
        and m4: "next_block m4 = next_block m2" "block_size m4 = block_size m2"
          "\<forall>c. released m4 c = (released m2 c \<or> Some c = buffer (data v))"
          "\<forall>q. cell m4 b q = (if q < vsize v then cell m2 (the (buffer (data v))) q else cell m2 b q)"
          "trace m4 = trace m2
                    @ map (\<lambda>t. EvOp (transplant_kind T) (Cell (buffer (data v)) t) (Cell (Some b) t)) [0..<vsize v]
                    @ map (\<lambda>t. EvDestroy (Cell (buffer (data v)) t)) [0..<vsize v]"
        by auto
      have old: "buffer (data v) \<noteq> None" if "q < vsize v" for q
        using ok that by (auto simp: vec_ok_def live_def)
      have c4: "cell m4 b q =
         (if q < n then cell m (the (buffer (data v))) q
          else if q = n then Some x
          else if q \<le> n then cell m (the (buffer (data v))) (q - 1)
          else None)" for q
        using old[of q] pre(5) by (auto simp: m4(4)[rule_format] m2 n_def)
      have rg: "regrown v m nc n (Some x) (v\<lparr>data := ?nd\<rparr>) m4"
        unfolding regrown_def b_def[symmetric]
        using c4 pre(5) by (simp add: m4 m2 n_def)
      have tr: "trace m4 = trace m @ [?ev]
                    @ map (\<lambda>t. EvOp (transplant_kind T) (Cell (buffer (data v)) t) (Cell (Some b) t)) [0..<n]
                    @ map (\<lambda>t. EvDestroy (Cell (buffer (data v)) t)) [0..<n]"
        using m4(5) by (simp add: m2 n_def)
      show ?thesis
        unfolding unf Inr n_def[symmetric] nc_def[symmetric] b_def[symmetric]
        using rb rg tr by simp
    qed
  qed
qed

lemma EmplaceBack_ok:
  assumes ok: "vec_ok m v" and a: "outside a x"
  shows "case EmplaceBack T a v m of
     (Inr ptr, v', m') \<Rightarrow> ptr = (buffer (data v'), vsize v) \<and> vsize v' = vsize v + 1 \<and> vec_ok m' v' \<and>
        elements m' v' = elements m v @ [Some x]
   | (Inl f, v', m') \<Rightarrow> \<not> never_throws T"
proof (cases "vsize v = Vector_Capacity v")
  case True
  define nc where "nc = (if vsize v = 0 then 1 else vsize v * 2)"
  have nc: "vsize v < nc" by (simp add: nc_def)
  obtain r1 v1 m1 where g: "EmplaceBack_grow T a v m = (r1, v1, m1)" by (cases "EmplaceBack_grow T a v m") auto
  note go = EmplaceBack_grow_ok[OF ok a, of T]
  show ?thesis
  proof (cases r1)
    case (Inl f)
    with go g True show ?thesis by (simp add: EmplaceBack_def)
  next
    case (Inr u)
    with go g have rg: "regrown v m nc (vsize v) (Some x) v1 m1" by (simp add: nc_def)
    define v2 where "v2 = v1\<lparr>vsize := vsize v + 1\<rparr>"
    have tk: "take (vsize v) (elements m v) = elements m v" "drop (vsize v) (elements m v) = []"
      using ok by simp_all
    from regrown_elements[OF rg ok le_refl nc]
    have ok2: "vec_ok m1 v2" and el: "elements m1 v2 = elements m v @ [Some x]"
      unfolding tk by (simp_all add: v2_def)
    from rg have v1: "vsize v1 = vsize v" "capacity (data v1) = nc" "buffer (data v1) = Some (next_block m)"
      by (simp_all add: regrown_def)
    have idx: "RawMemory_index (data v2) (vsize v) = Inr (buffer (data v2), vsize v)"
      using nc v1 by (simp add: RawMemory_index_def v2_def)
    have "EmplaceBack T a v m = (Inr (buffer (data v2), vsize v), v2, m1)"
      using True g Inr idx v1 by (simp add: EmplaceBack_def Let_def v2_def)
    with ok2 el show ?thesis by (simp add: v2_def)
  qed
next
  case False
  with ok have lt: "vsize v < capacity (data v)" by (simp add: vec_ok_def Vector_Capacity_def Capacity_def)
  with ok obtain b where b: "buffer (data v) = Some b" and ib: "in_block m b (vsize v)"
    by (cases "buffer (data v)") (auto simp: vec_ok_def raw_ok_def in_block_def)
  note ca = construct_arg_outside[OF a ib, of T]
  show ?thesis
  proof (cases "raises T (trace m) (arg_kind a) x")
    case True
    then have "\<not> never_throws T" by (rule raises_not_never)
    moreover have "\<exists>m1. EmplaceBack T a v m = (Inl (Thrown (arg_kind a)), v, m1)"
      using True False ca b by (simp add: EmplaceBack_def GetAddress_def)
    ultimately show ?thesis by auto
  next
    case nr: False
    define m1 where "m1 = log (EvOp (arg_kind a) Outside (Cell (Some b) (vsize v))) (put (Some b) (vsize v) (Some x) m)"
    define v2 where "v2 = v\<lparr>vsize := vsize v + 1\<rparr>"
    have c1: "construct_arg T a (Some b) (vsize v) m = (Inr (), m1)" using nr ca by (simp add: m1_def)
    have idx: "RawMemory_index (data v2) (vsize v) = Inr (buffer (data v2), vsize v)"
      using lt by (simp add: RawMemory_index_def v2_def)
    have eq: "EmplaceBack T a v m = (Inr (buffer (data v2), vsize v), v2, m1)"
      using False c1 idx b by (simp add: EmplaceBack_def Let_def v2_def GetAddress_def)
    have ok2: "vec_ok m1 v2"
      using ok lt b by (auto simp: vec_ok_def raw_ok_def live_def v2_def m1_def)
    have el: "elements m1 v2 = elements m v @ [Some x]"
      using b by (simp add: elements_def v2_def m1_def)
    from eq ok2 el show ?thesis by (simp add: v2_def)
  qed
qed

lemma PushBack_ok:
  assumes ok: "vec_ok m v" and a: "outside a x"
  shows "case PushBack T a v m of
     (Inr _, v', m') \<Rightarrow> vsize v' = vsize v + 1 \<and> vec_ok m' v' \<and> elements m' v' = elements m v @ [Some x]
   | (Inl f, v', m') \<Rightarrow> \<not> never_throws T"
  using EmplaceBack_ok[OF ok a, of T]
  by (auto simp: PushBack_def split: prod.split sum.split)

lemma doubling_bounds:
  "n \<le> doubling n \<and> (0 < n \<longrightarrow> (\<exists>k. doubling n = 2 ^ k) \<and> doubling n < 2 * n)"
proof (induction n)
  case 0
  show ?case by simp
next
  case (Suc n)
  show ?case
  proof (cases "n = doubling n")
    case True
    show ?thesis
    proof (cases "n = 0")
      case z: True
      then have d: "doubling (Suc n) = 1" by simp
      have "(1::nat) = 2 ^ 0" by simp
      then have "\<exists>k. doubling (Suc n) = 2 ^ k" unfolding d by (rule exI)
      then show ?thesis using z d by simp
    next
      case False
      with Suc obtain k where k: "doubling n = 2 ^ k" by auto
      have d: "doubling (Suc n) = 2 * n" using True False by simp
      have "doubling (Suc n) = 2 ^ Suc k" using d True k by simp
      then have "\<exists>k. doubling (Suc n) = 2 ^ k" by blast
      then show ?thesis using d False by auto
    qed
  next
    case False
    with Suc have lt: "n < doubling n" by simp
    then have pos: "0 < n" using False by (cases n) auto
    have d: "doubling (Suc n) = doubling n" using False by simp
    from Suc pos have "(\<exists>k. doubling n = 2 ^ k) \<and> doubling n < 2 * n" by simp
    then show ?thesis unfolding d using lt by auto
  qed
qed

lemma PushBack_Inr:
  "PushBack T a v m = (Inr u, v', m') \<Longrightarrow> \<exists>p. EmplaceBack T a v m = (Inr p, v', m')"
  by (auto simp: PushBack_def split: prod.splits sum.splits)

lemma push_all_fields:
  "push_all T as v m = (Inr u, v', m') \<Longrightarrow> Vector_Capacity v = doubling (vsize v) \<Longrightarrow>
     vsize v' = vsize v + length as \<and> Vector_Capacity v' = doubling (vsize v + length as)"
proof (induction as arbitrary: v m)
  case Nil
  then show ?case by simp
next
  case (Cons a as)
  obtain r1 v1 m1 where p: "PushBack T a v m = (r1, v1, m1)" by (cases "PushBack T a v m") auto
  show ?case
  proof (cases r1)
    case (Inl f)
    with Cons.prems(1) p show ?thesis by simp
  next
    case (Inr w)
    with p obtain q where "EmplaceBack T a v m = (Inr q, v1, m1)" by (auto dest: PushBack_Inr)
    from EmplaceBack_fields[OF this] Cons.prems(2)
    have v1: "vsize v1 = Suc (vsize v)" "Vector_Capacity v1 = doubling (vsize v1)" by auto
    from Cons.prems(1) p Inr have "push_all T as v1 m1 = (Inr u, v', m')" by simp
    from Cons.IH[OF this v1(2)] v1(1) show ?thesis by simp
  qed
qed

lemma push_all_ok:
  "vec_ok m v \<Longrightarrow> \<forall>a\<in>set as. \<exists>x. outside a x \<Longrightarrow>
     (case push_all T as v m of
        (Inr _, v', m') \<Rightarrow> vec_ok m' v'
      | (Inl f, v', m') \<Rightarrow> \<not> never_throws T)"
proof (induction as arbitrary: v m)
  case Nil
  then show ?case by simp
next
  case (Cons a as)
  from Cons.prems(2) obtain x where x: "outside a x" by auto
  obtain r1 v1 m1 where p: "PushBack T a v m = (r1, v1, m1)" by (cases "PushBack T a v m") auto
  note po = PushBack_ok[OF Cons.prems(1) x, of T]
  show ?case
  proof (cases r1)
    case (Inl f)
    with po p show ?thesis by simp
  next
    case (Inr w)
    with po p have "vec_ok m1 v1" by simp
    from Cons.IH[OF this] Cons.prems(2) show ?thesis using p Inr by simp
  qed
qed

lemma vec_ok_default: "vec_ok m Vector_default"
  by (simp add: vec_ok_def raw_ok_def live_def Vector_default_def RawMemory_default_def)

lemma never_throws_plain: "never_throws plain"
  by (simp add: never_throws_def raises_def plain_def)


lemma call_collapse: "fst c = r \<Longrightarrow> c = (r, fst (snd c), snd (snd c))"
  by (cases c) auto

lemma EmplaceBack_full_ok:
  assumes ok: "vec_ok m v" and a: "outside a x" and full: "vsize v = Vector_Capacity v"
  shows "case EmplaceBack T a v m of
     (Inr p, v', m') \<Rightarrow>
        trace m' = trace m
          @ [EvOp (arg_kind a) Outside (Cell (Some (next_block m)) (vsize v))]
          @ map (\<lambda>t. EvOp (transplant_kind T) (Cell (buffer (data v)) t) (Cell (Some (next_block m)) t)) [0..<vsize v]
          @ map (\<lambda>t. EvDestroy (Cell (buffer (data v)) t)) [0..<vsize v]
   | (Inl f, v', m') \<Rightarrow> \<not> never_throws T"
proof -
  obtain r1 v1 m1 where g: "EmplaceBack_grow T a v m = (r1, v1, m1)" by (cases "EmplaceBack_grow T a v m") auto
  note go = EmplaceBack_grow_ok[OF ok a, of T]
  show ?thesis
  proof (cases r1)
    case (Inl f)
    with go g full show ?thesis by (simp add: EmplaceBack_def)
  next
    case (Inr u)
    with go g have tr: "trace m1 = trace m
          @ [EvOp (arg_kind a) Outside (Cell (Some (next_block m)) (vsize v))]
          @ map (\<lambda>t. EvOp (transplant_kind T) (Cell (buffer (data v)) t) (Cell (Some (next_block m)) t)) [0..<vsize v]
          @ map (\<lambda>t. EvDestroy (Cell (buffer (data v)) t)) [0..<vsize v]"
      by simp
    have "\<exists>r v'. EmplaceBack T a v m = (r, v', m1)"
      using g Inr full by (simp add: EmplaceBack_def Let_def split: sum.split)
    then obtain r v' where e: "EmplaceBack T a v m = (r, v', m1)" by blast
    from EmplaceBack_ok[OF ok a, of T] e tr show ?thesis
      by (cases r) simp_all
  qed
qed

lemma Emplace_full_ok:
  assumes ok: "vec_ok m v" and idx: "index \<le> vsize v" and a: "outside a x"
    and full: "vsize v = Vector_Capacity v"
  shows "case Emplace T index a v m of
     (Inr p, v', m') \<Rightarrow>
        trace m' = trace m
          @ [EvOp (arg_kind a) Outside (Cell (Some (next_block m)) index)]
          @ map (\<lambda>t. EvOp (transplant_kind T) (Cell (buffer (data v)) t) (Cell (Some (next_block m)) t)) [0..<index]
          @ map (\<lambda>t. EvOp (transplant_kind T) (Cell (buffer (data v)) (index + t))
                   (Cell (Some (next_block m)) (index + 1 + t))) [0..<vsize v - index]
          @ map (\<lambda>t. EvDestroy (Cell (buffer (data v)) t)) [0..<vsize v]
   | (Inl f, v', m') \<Rightarrow> \<not> never_throws T"
proof -
  obtain r1 v1 m1 where g: "Emplace_grow T index a v m = (r1, v1, m1)" by (cases "Emplace_grow T index a v m") auto
  note go = Emplace_grow_ok[OF ok idx a, of T]
  have e: "Emplace T index a v m =
     (case r1 of Inl f \<Rightarrow> (Inl f, v1, m1)
      | Inr _ \<Rightarrow> (Inr (GetAddress (data v1), index), v1\<lparr>vsize := vsize v1 + 1\<rparr>, m1))"
    using g idx full by (simp add: Emplace_def Vector_Capacity_def split: sum.split)
  show ?thesis
  proof (cases r1)
    case (Inl f)
    with go g show ?thesis unfolding e by simp
  next
    case (Inr u)
    with go g show ?thesis unfolding e by simp
  qed
qed

lemma outside_keeps_source: "outside a x \<Longrightarrow> keeps_source a"
  by (auto simp: outside_def keeps_source_def)

lemma never_throws_copy_only: "never_throws copy_only"
  by (simp add: never_throws_def raises_def copy_only_def)

text \<open>
  \<^verbatim>\<open>Insert\<close> and \<^verbatim>\<open>Emplace\<close> of a value that is an object of the caller's, at a position up to
  the size: when the call returns, the vector has one element more, the value is at the
  position, the elements before and after it are the old ones in their order, and the
  returned iterator points to the position. The call returns when no operation of the
  element type throws.
\<close>

lemma Insert_ok:
  assumes ok: "vec_ok m v" and idx: "index \<le> vsize v" and a: "outside a x"
  shows "case Insert T index a v m of
     (Inr ptr, v', m') \<Rightarrow>
        ptr = (buffer (data v'), index) \<and> vsize v' = vsize v + 1 \<and> vec_ok m' v' \<and>
        elements m' v' = take index (elements m v) @ [Some x] @ drop index (elements m v)
   | (Inl f, v', m') \<Rightarrow> \<not> never_throws T"
  unfolding Insert_def by (rule Emplace_ok[OF ok idx a])

section \<open>RawMemory: move construction and move assignment\<close>

text \<open>
  Between two different objects the move assignment releases the block of the
  destination, hands the pointer and the capacity of the source over and leaves the
  source empty. The move constructor does the same for a new object.
\<close>

lemma RawMemory_move_assign_distinct:
  assumes "this \<noteq> rhs"
    and "buffer (raw_objs w this) = None \<or>
         (\<exists>a. buffer (raw_objs w this) = Some a \<and> a < next_block (raw_mem w) \<and> \<not> released (raw_mem w) a)"
  shows "\<exists>w'. RawMemory_move_assign this rhs w = (Inr (), w')
     \<and> raw_objs w' this = raw_objs w rhs
     \<and> raw_objs w' rhs = RawMemory_default
     \<and> (\<forall>a. released (raw_mem w') a = (released (raw_mem w) a \<or> buffer (raw_objs w this) = Some a))"
  using assms
  by (auto simp add: RawMemory_move_assign_def Deallocate_def exchange_buffer_def exchange_capacity_def
      RawMemory_default_def split: option.splits)

lemma RawMemory_move_ctor_distinct:
  assumes "this \<noteq> other"
  shows "\<exists>w'. RawMemory_move_ctor this other w = (Inr (), w')
     \<and> raw_objs w' this = raw_objs w other
     \<and> raw_objs w' other = RawMemory_default
     \<and> raw_mem w' = raw_mem w"
  using assms
  by (auto simp add: RawMemory_move_ctor_def RawMemory_move_assign_def Deallocate_def exchange_buffer_def
      exchange_capacity_def RawMemory_default_def split: option.splits)

text \<open>
  Claim C4 (self-move-assignment of a RawMemory is safe and leaves it empty or owning).
  The source does not compare \<^verbatim>\<open>this\<close> with \<^verbatim>\<open>&rhs\<close>. On an object that owns a block of
  two cells, \<^verbatim>\<open>x = std::move(x)\<close> releases the block, returns normally and leaves the object
  with its old pointer and its old capacity: the object is not empty and the block it
  points to has been released. Its destructor then releases the block a second time.
\<close>

theorem RawMemory_self_move_assign_dangling:
  "fst (RawMemory_move_assign 0 0 self_move_world) = Inr ()
   \<and> raw_objs (snd (RawMemory_move_assign 0 0 self_move_world)) 0 = \<lparr>buffer = Some 0, capacity = 2\<rparr>
   \<and> released (raw_mem (snd (RawMemory_move_assign 0 0 self_move_world))) 0
   \<and> fst (RawMemory_dtor 0 (snd (RawMemory_move_assign 0 0 self_move_world))) = Inl (Undefined DoubleFree)"
  by (simp add: self_move_world_def RawMemory_ctor_def RawMemory_new_def Allocate_def empty_raw_world_def
      empty_mem_def RawMemory_move_assign_def Deallocate_def exchange_buffer_def exchange_capacity_def
      RawMemory_dtor_def RawMemory_delete_def RawMemory_default_def)

section \<open>Vector: move construction, move assignment and self-assignment\<close>

lemma Vector_eta [simp]: "\<lparr>data = data v, vsize = vsize v\<rparr> = v"
  by (cases v) simp

lemma two_vectors_eval:
  "vectors two_vectors 0 = \<lparr>data = \<lparr>buffer = Some 0, capacity = Suc 0\<rparr>, vsize = Suc 0\<rparr>"
  "vectors two_vectors (Suc 0) = \<lparr>data = \<lparr>buffer = Some (Suc 0), capacity = 2\<rparr>, vsize = 2\<rparr>"
  "cell (memory two_vectors) 0 0 = Some 0"
  "cell (memory two_vectors) (Suc 0) 0 = Some 0"
  "cell (memory two_vectors) (Suc 0) (Suc 0) = Some 0"
  by (simp_all add: two_vectors_def Vector_size_ctor_def Vector_new_def RawMemory_new_def Allocate_def
      empty_world_def empty_mem_def uninitialized_value_construct_n_def rollback_def
      value_construct_at_def slot_def raises_def plain_def GetAddress_def put_def log_def
      numeral_2_eq_2)

text \<open>
  Claim C1 (after move construction or move assignment the source is empty; never
  throws), as amended. \<^verbatim>\<open>Vector(Vector&&)\<close> swaps a new, empty vector with the source: the
  new vector takes over block, size and elements, and the source is left with size \<open>0\<close>,
  capacity \<open>0\<close> and no block. \<^verbatim>\<open>operator=(Vector&&)\<close> swaps the destination itself with the
  source: the destination takes over block, size and elements of the source, and the
  source takes over those of the destination. Both are total functions on the world that
  leave the memory as it is, so neither throws.
\<close>

theorem Vector_move_transfers:
  "(this \<noteq> other \<longrightarrow>
      vectors (Vector_move_ctor this other w) this = vectors w other
    \<and> elements (memory (Vector_move_ctor this other w)) (vectors (Vector_move_ctor this other w) this)
        = elements (memory w) (vectors w other)
    \<and> vsize (vectors (Vector_move_ctor this other w) other) = 0
    \<and> Vector_Capacity (vectors (Vector_move_ctor this other w) other) = 0
    \<and> buffer (data (vectors (Vector_move_ctor this other w) other)) = None
    \<and> memory (Vector_move_ctor this other w) = memory w)
   \<and> vectors (Vector_move_assign this other w) this = vectors w other
   \<and> elements (memory (Vector_move_assign this other w)) (vectors (Vector_move_assign this other w) this)
       = elements (memory w) (vectors w other)
   \<and> vectors (Vector_move_assign this other w) other = vectors w this
   \<and> elements (memory (Vector_move_assign this other w)) (vectors (Vector_move_assign this other w) other)
       = elements (memory w) (vectors w this)
   \<and> memory (Vector_move_assign this other w) = memory w"
  by (simp add: Vector_move_ctor_def Vector_move_assign_def Vector_Swap_def Vector_default_ctor_def
      swap_vectors_def RawMemory_Swap_def Vector_default_def RawMemory_default_def Vector_Capacity_def
      Capacity_def)

theorem Vector_move_transfers_witness:
  "(0::nat) \<noteq> 1
   \<and> vectors (Vector_move_ctor 0 1 two_vectors) 0 = \<lparr>data = \<lparr>buffer = Some 1, capacity = 2\<rparr>, vsize = 2\<rparr>
   \<and> elements (memory (Vector_move_ctor 0 1 two_vectors)) (vectors (Vector_move_ctor 0 1 two_vectors) 0)
       = [Some 0, Some 0]
   \<and> vsize (vectors (Vector_move_ctor 0 1 two_vectors) 1) = 0
   \<and> Vector_Capacity (vectors (Vector_move_ctor 0 1 two_vectors) 1) = 0
   \<and> vectors (Vector_move_assign 0 1 two_vectors) 0 = \<lparr>data = \<lparr>buffer = Some 1, capacity = 2\<rparr>, vsize = 2\<rparr>
   \<and> vectors (Vector_move_assign 0 1 two_vectors) 1 = \<lparr>data = \<lparr>buffer = Some 0, capacity = 1\<rparr>, vsize = 1\<rparr>"
  using Vector_move_transfers[of 0 1 two_vectors]
  by (simp add: two_vectors_eval elements_def upt_rec numeral_2_eq_2)

text \<open>
  The claim as stated fails for the move assignment: moving the vector \<open>1\<close> (two elements)
  into the vector \<open>0\<close> (one element) leaves the source \<open>1\<close> with size \<open>1\<close> and capacity \<open>1\<close>.
\<close>

theorem Vector_move_assign_source_not_empty:
  "vsize (vectors (Vector_move_assign 0 1 two_vectors) 1) = 1
   \<and> Vector_Capacity (vectors (Vector_move_assign 0 1 two_vectors) 1) = 1
   \<and> elements (memory (Vector_move_assign 0 1 two_vectors)) (vectors (Vector_move_assign 0 1 two_vectors) 1)
       = [Some 0]
   \<and> \<not> (vsize (vectors (Vector_move_assign 0 1 two_vectors) 1) = 0
        \<and> Vector_Capacity (vectors (Vector_move_assign 0 1 two_vectors) 1) = 0)"
  by (simp add: Vector_move_assign_def Vector_Swap_def swap_vectors_def RawMemory_Swap_def two_vectors_eval
      Vector_Capacity_def Capacity_def elements_def upt_rec)

text \<open>
  Claim C10 (copy-assigning a vector to itself leaves it unchanged). The assignment
  returns normally and the world is the same: size, capacity, block and every cell.
\<close>

theorem Vector_copy_assign_self:
  "Vector_copy_assign T this this w = (Inr (), w)"
  by (simp add: Vector_copy_assign_def)

text \<open>
  Claim C9 (the size never exceeds the capacity of the owned block). Every world starts
  with default-constructed vectors and no memory; after any sequence of calls of the
  public operations, on any vector objects and with any arguments, and whatever the
  outcome of each call (also after an exception), every vector has
  \<^verbatim>\<open>Size() <= Capacity()\<close>.
\<close>

theorem size_never_exceeds_capacity:
  "Size (vectors (run T calls empty_world) this) \<le> Vector_Capacity (vectors (run T calls empty_world) this)"
  using run_fits[OF empty_world_fits, of T calls] by (simp add: all_fit_def fits_def Size_def)

text \<open>
  Claim C3 (when transplanting the prefix or the suffix throws in the growth path of
  \<^verbatim>\<open>Emplace\<close>, exactly the elements constructed so far in the new block are destroyed).
  The handler runs \<^verbatim>\<open>std::destroy_n(tmp.GetAddress(), index + 1)\<close> whichever of the two
  \<^verbatim>\<open>std::uninitialized_copy_n\<close> calls has thrown. When the copy of the prefix throws,
  \<^verbatim>\<open>std::uninitialized_copy_n\<close> has already destroyed what it had constructed, so the cells
  before \<open>index\<close> are raw: on the full vector \<open>[1, 2]\<close>, \<^verbatim>\<open>Emplace\<close> at position \<open>1\<close> with the
  copy of the first element throwing reaches the destructor call on the cell \<open>0\<close> of the new
  block (address \<open>2\<close>), in which no object was ever constructed.
\<close>

theorem Emplace_prefix_throw_destroys_raw_cell:
  "Size (fst (full_pair 2)) = 2 \<and> Vector_Capacity (fst (full_pair 2)) = 2
   \<and> elements (snd (full_pair 2)) (fst (full_pair 2)) = [Some 1, Some 2]
   \<and> fst (Emplace (throwing_copy 2) 1 (ConstRef (Ext 9)) (fst (full_pair 2)) (snd (full_pair 2)))
       = Inl (Undefined Unconstructed)
   \<and> cell (snd (snd (Emplace (throwing_copy 2) 1 (ConstRef (Ext 9)) (fst (full_pair 2)) (snd (full_pair 2))))) 2 0
       = None
   \<and> cell (snd (snd (Emplace (throwing_copy 2) 1 (ConstRef (Ext 9)) (fst (full_pair 2)) (snd (full_pair 2))))) 2 1
       = Some 9"
  by code_simp

text \<open>
  Claim C2 (strong exception guarantee of \<^verbatim>\<open>Reserve\<close>, \<^verbatim>\<open>EmplaceBack\<close>, \<^verbatim>\<open>Insert\<close>/\<^verbatim>\<open>Emplace\<close>
  and copy assignment when a copy throws), as amended. When the exception of the copy
  constructor or of the copy assignment leaves
  \<^item> \<^verbatim>\<open>Reserve\<close>,
  \<^item> \<^verbatim>\<open>EmplaceBack\<close> or \<^verbatim>\<open>PushBack\<close>,
  \<^item> \<^verbatim>\<open>Emplace\<close> or \<^verbatim>\<open>Insert\<close> on a vector at full capacity or at the position \<^verbatim>\<open>end()\<close>,
  \<^item> the copy assignment of a right-hand side that is larger than the capacity,

  then the vector has the size, the capacity and the block it had before the call, and
  every block that existed before the call is untouched, so that the elements are the
  same. The argument of the call must not be an rvalue reference to a cell of the memory
  (moving \<^verbatim>\<open>v[i]\<close> into \<^verbatim>\<open>v\<close> changes \<^verbatim>\<open>v[i]\<close> whatever happens afterwards).
\<close>

theorem strong_guarantee_on_copy_exception:
  assumes "e = CopyCtor \<or> e = CopyAssign"
  shows
    "(vec_ok m v \<and> Reserve T new_capacity v m = (Inl (Thrown e), v', m') \<longrightarrow>
        Size v' = Size v \<and> Vector_Capacity v' = Vector_Capacity v \<and> elements m' v' = elements m v)
   \<and> (vec_ok m v \<and> keeps_source a \<and> EmplaceBack T a v m = (Inl (Thrown e), v', m') \<longrightarrow>
        Size v' = Size v \<and> Vector_Capacity v' = Vector_Capacity v \<and> elements m' v' = elements m v)
   \<and> (vec_ok m v \<and> keeps_source a \<and> PushBack T a v m = (Inl (Thrown e), v', m') \<longrightarrow>
        Size v' = Size v \<and> Vector_Capacity v' = Vector_Capacity v \<and> elements m' v' = elements m v)
   \<and> (vec_ok m v \<and> keeps_source a \<and> (Size v = Vector_Capacity v \<or> index = Size v)
        \<and> Emplace T index a v m = (Inl (Thrown e), v', m') \<longrightarrow>
        Size v' = Size v \<and> Vector_Capacity v' = Vector_Capacity v \<and> elements m' v' = elements m v)
   \<and> (vec_ok m v \<and> keeps_source a \<and> (Size v = Vector_Capacity v \<or> index = Size v)
        \<and> Insert T index a v m = (Inl (Thrown e), v', m') \<longrightarrow>
        Size v' = Size v \<and> Vector_Capacity v' = Vector_Capacity v \<and> elements m' v' = elements m v)
   \<and> (vec_ok (memory w) (vectors w this) \<and> Vector_Capacity (vectors w this) < Size (vectors w rhs)
        \<and> Vector_copy_assign T this rhs w = (Inl (Thrown e), w') \<longrightarrow>
        Size (vectors w' this) = Size (vectors w this)
        \<and> Vector_Capacity (vectors w' this) = Vector_Capacity (vectors w this)
        \<and> elements (memory w') (vectors w' this) = elements (memory w) (vectors w this))"
proof (intro conjI impI)
  assume h: "vec_ok m v \<and> Reserve T new_capacity v m = (Inl (Thrown e), v', m')"
  with Reserve_strong[OF _ assms] have "v' = v \<and> kept (next_block m) m m'" by blast
  with h kept_elements show "Size v' = Size v" "Vector_Capacity v' = Vector_Capacity v"
    "elements m' v' = elements m v" by blast+
next
  assume h: "vec_ok m v \<and> keeps_source a \<and> EmplaceBack T a v m = (Inl (Thrown e), v', m')"
  with EmplaceBack_strong[OF _ assms] have "v' = v \<and> kept (next_block m) m m'" by blast
  with h kept_elements show "Size v' = Size v" "Vector_Capacity v' = Vector_Capacity v"
    "elements m' v' = elements m v" by blast+
next
  assume h: "vec_ok m v \<and> keeps_source a \<and> PushBack T a v m = (Inl (Thrown e), v', m')"
  then obtain p where "EmplaceBack T a v m = (Inl (Thrown e), v', m')"
    by (auto simp: PushBack_def split: prod.splits sum.splits)
  with h EmplaceBack_strong[OF _ assms] have "v' = v \<and> kept (next_block m) m m'" by blast
  with h kept_elements show "Size v' = Size v" "Vector_Capacity v' = Vector_Capacity v"
    "elements m' v' = elements m v" by blast+
next
  assume h: "vec_ok m v \<and> keeps_source a \<and> (Size v = Vector_Capacity v \<or> index = Size v)
        \<and> Emplace T index a v m = (Inl (Thrown e), v', m')"
  with Emplace_strong[OF _ assms, of T index a v m v' m'] have "v' = v \<and> kept (next_block m) m m'"
    by (simp add: Size_def)
  with h kept_elements show "Size v' = Size v" "Vector_Capacity v' = Vector_Capacity v"
    "elements m' v' = elements m v" by blast+
next
  assume h: "vec_ok m v \<and> keeps_source a \<and> (Size v = Vector_Capacity v \<or> index = Size v)
        \<and> Insert T index a v m = (Inl (Thrown e), v', m')"
  with Emplace_strong[OF _ assms, of T index a v m v' m'] have "v' = v \<and> kept (next_block m) m m'"
    by (simp add: Size_def Insert_def)
  with h kept_elements show "Size v' = Size v" "Vector_Capacity v' = Vector_Capacity v"
    "elements m' v' = elements m v" by blast+
next
  assume h: "vec_ok (memory w) (vectors w this) \<and> Vector_Capacity (vectors w this) < Size (vectors w rhs)
        \<and> Vector_copy_assign T this rhs w = (Inl (Thrown e), w')"
  with Vector_copy_assign_strong[of T this rhs w e w']
  have "vectors w' = vectors w \<and> kept (next_block (memory w)) (memory w) (memory w')" by blast
  with h kept_elements[of "memory w" "memory w'" "vectors w this"]
  show "Size (vectors w' this) = Size (vectors w this)"
    "Vector_Capacity (vectors w' this) = Vector_Capacity (vectors w this)"
    "elements (memory w') (vectors w' this) = elements (memory w) (vectors w this)" by simp_all
qed

theorem strong_guarantee_on_copy_exception_witness:
  "vec_ok (snd (full_pair 1)) (fst (full_pair 1))
   \<and> fst (Reserve (throwing_copy 1) 5 (fst (full_pair 1)) (snd (full_pair 1))) = Inl (Thrown CopyCtor)
   \<and> elements (snd (snd (Reserve (throwing_copy 1) 5 (fst (full_pair 1)) (snd (full_pair 1)))))
        (fst (snd (Reserve (throwing_copy 1) 5 (fst (full_pair 1)) (snd (full_pair 1)))))
       = elements (snd (full_pair 1)) (fst (full_pair 1))
   \<and> keeps_source (ConstRef (Ext (9::int)))
   \<and> fst (EmplaceBack (throwing_copy 2) (ConstRef (Ext 9)) (fst (full_pair 2)) (snd (full_pair 2)))
       = Inl (Thrown CopyCtor)
   \<and> elements (snd (snd (EmplaceBack (throwing_copy 2) (ConstRef (Ext 9)) (fst (full_pair 2)) (snd (full_pair 2)))))
        (fst (snd (EmplaceBack (throwing_copy 2) (ConstRef (Ext 9)) (fst (full_pair 2)) (snd (full_pair 2)))))
       = elements (snd (full_pair 2)) (fst (full_pair 2))
   \<and> fst (PushBack (throwing_copy 2) (ConstRef (Ext 9)) (fst (full_pair 2)) (snd (full_pair 2)))
       = Inl (Thrown CopyCtor)
   \<and> elements (snd (snd (PushBack (throwing_copy 2) (ConstRef (Ext 9)) (fst (full_pair 2)) (snd (full_pair 2)))))
        (fst (snd (PushBack (throwing_copy 2) (ConstRef (Ext 9)) (fst (full_pair 2)) (snd (full_pair 2)))))
       = elements (snd (full_pair 2)) (fst (full_pair 2))
   \<and> Size (fst (full_pair 3)) = Vector_Capacity (fst (full_pair 3))
   \<and> fst (Emplace (throwing_copy 3) 1 (ConstRef (Ext 9)) (fst (full_pair 3)) (snd (full_pair 3)))
       = Inl (Thrown CopyCtor)
   \<and> elements (snd (snd (Emplace (throwing_copy 3) 1 (ConstRef (Ext 9)) (fst (full_pair 3)) (snd (full_pair 3)))))
        (fst (snd (Emplace (throwing_copy 3) 1 (ConstRef (Ext 9)) (fst (full_pair 3)) (snd (full_pair 3)))))
       = elements (snd (full_pair 3)) (fst (full_pair 3))
   \<and> fst (Insert (throwing_copy 3) 1 (ConstRef (Ext 9)) (fst (full_pair 3)) (snd (full_pair 3)))
       = Inl (Thrown CopyCtor)
   \<and> elements (snd (snd (Insert (throwing_copy 3) 1 (ConstRef (Ext 9)) (fst (full_pair 3)) (snd (full_pair 3)))))
        (fst (snd (Insert (throwing_copy 3) 1 (ConstRef (Ext 9)) (fst (full_pair 3)) (snd (full_pair 3)))))
       = elements (snd (full_pair 3)) (fst (full_pair 3))
   \<and> Vector_Capacity (vectors (short_and_long (throwing_copy 2)) 0)
       < Size (vectors (short_and_long (throwing_copy 2)) 1)
   \<and> fst (Vector_copy_assign (throwing_copy 2) 0 1 (short_and_long (throwing_copy 2))) = Inl (Thrown CopyCtor)
   \<and> elements (memory (snd (Vector_copy_assign (throwing_copy 2) 0 1 (short_and_long (throwing_copy 2)))))
        (vectors (snd (Vector_copy_assign (throwing_copy 2) 0 1 (short_and_long (throwing_copy 2)))) 0)
       = elements (memory (short_and_long (throwing_copy 2))) (vectors (short_and_long (throwing_copy 2)) 0)"
proof -
  have ok1: "vec_ok (snd (full_pair 1)) (fst (full_pair 1))" by code_simp
  have ok2: "vec_ok (snd (full_pair 2)) (fst (full_pair 2))" by code_simp
  have ok3: "vec_ok (snd (full_pair 3)) (fst (full_pair 3))" by code_simp
  have ok4: "vec_ok (memory (short_and_long (throwing_copy 2))) (vectors (short_and_long (throwing_copy 2)) 0)"
    by code_simp
  have ks: "keeps_source (ConstRef (Ext (9::int)))" by (simp add: keeps_source_def)
  have full: "Size (fst (full_pair 3)) = Vector_Capacity (fst (full_pair 3))" by code_simp
  have big: "Vector_Capacity (vectors (short_and_long (throwing_copy 2)) 0)
       < Size (vectors (short_and_long (throwing_copy 2)) 1)" by code_simp
  have c1: "fst (Reserve (throwing_copy 1) 5 (fst (full_pair 1)) (snd (full_pair 1))) = Inl (Thrown CopyCtor)"
    by code_simp
  have c2: "fst (EmplaceBack (throwing_copy 2) (ConstRef (Ext 9)) (fst (full_pair 2)) (snd (full_pair 2)))
       = Inl (Thrown CopyCtor)" by code_simp
  have c3: "fst (PushBack (throwing_copy 2) (ConstRef (Ext 9)) (fst (full_pair 2)) (snd (full_pair 2)))
       = Inl (Thrown CopyCtor)" by code_simp
  have c4: "fst (Emplace (throwing_copy 3) 1 (ConstRef (Ext 9)) (fst (full_pair 3)) (snd (full_pair 3)))
       = Inl (Thrown CopyCtor)" by code_simp
  have c5: "fst (Insert (throwing_copy 3) 1 (ConstRef (Ext 9)) (fst (full_pair 3)) (snd (full_pair 3)))
       = Inl (Thrown CopyCtor)" unfolding Insert_def by (rule c4)
  have c6: "fst (Vector_copy_assign (throwing_copy 2) 0 1 (short_and_long (throwing_copy 2))) = Inl (Thrown CopyCtor)"
    by code_simp
  note t = strong_guarantee_on_copy_exception[where e = CopyCtor, simplified]
  have r1: "elements (snd (snd (Reserve (throwing_copy 1) 5 (fst (full_pair 1)) (snd (full_pair 1)))))
        (fst (snd (Reserve (throwing_copy 1) 5 (fst (full_pair 1)) (snd (full_pair 1)))))
       = elements (snd (full_pair 1)) (fst (full_pair 1))"
    using t[THEN conjunct1, rule_format, OF conjI[OF ok1 thrown_call[OF c1]]] by simp
  have r2: "elements (snd (snd (EmplaceBack (throwing_copy 2) (ConstRef (Ext 9)) (fst (full_pair 2)) (snd (full_pair 2)))))
        (fst (snd (EmplaceBack (throwing_copy 2) (ConstRef (Ext 9)) (fst (full_pair 2)) (snd (full_pair 2)))))
       = elements (snd (full_pair 2)) (fst (full_pair 2))"
    using t[THEN conjunct2, THEN conjunct1, rule_format, OF conjI[OF ok2 conjI[OF ks thrown_call[OF c2]]]] by simp
  have r3: "elements (snd (snd (PushBack (throwing_copy 2) (ConstRef (Ext 9)) (fst (full_pair 2)) (snd (full_pair 2)))))
        (fst (snd (PushBack (throwing_copy 2) (ConstRef (Ext 9)) (fst (full_pair 2)) (snd (full_pair 2)))))
       = elements (snd (full_pair 2)) (fst (full_pair 2))"
    using t[THEN conjunct2, THEN conjunct2, THEN conjunct1, rule_format,
        OF conjI[OF ok2 conjI[OF ks thrown_call[OF c3]]]] by simp
  have r4: "elements (snd (snd (Emplace (throwing_copy 3) 1 (ConstRef (Ext 9)) (fst (full_pair 3)) (snd (full_pair 3)))))
        (fst (snd (Emplace (throwing_copy 3) 1 (ConstRef (Ext 9)) (fst (full_pair 3)) (snd (full_pair 3)))))
       = elements (snd (full_pair 3)) (fst (full_pair 3))"
    using t[THEN conjunct2, THEN conjunct2, THEN conjunct2, THEN conjunct1, rule_format,
        OF conjI[OF ok3 conjI[OF ks conjI[OF disjI1[OF full] thrown_call[OF c4]]]]] by simp
  have r5: "elements (snd (snd (Insert (throwing_copy 3) 1 (ConstRef (Ext 9)) (fst (full_pair 3)) (snd (full_pair 3)))))
        (fst (snd (Insert (throwing_copy 3) 1 (ConstRef (Ext 9)) (fst (full_pair 3)) (snd (full_pair 3)))))
       = elements (snd (full_pair 3)) (fst (full_pair 3))"
    using t[THEN conjunct2, THEN conjunct2, THEN conjunct2, THEN conjunct2, THEN conjunct1, rule_format,
        OF conjI[OF ok3 conjI[OF ks conjI[OF disjI1[OF full] thrown_call[OF c5]]]]] by simp
  have r6: "elements (memory (snd (Vector_copy_assign (throwing_copy 2) 0 1 (short_and_long (throwing_copy 2)))))
        (vectors (snd (Vector_copy_assign (throwing_copy 2) 0 1 (short_and_long (throwing_copy 2)))) 0)
       = elements (memory (short_and_long (throwing_copy 2))) (vectors (short_and_long (throwing_copy 2)) 0)"
    using t[THEN conjunct2, THEN conjunct2, THEN conjunct2, THEN conjunct2, THEN conjunct2, rule_format,
        OF conjI[OF ok4 conjI[OF big thrown_world_call[OF c6]]]] by simp
  from ok1 c1 r1 ks c2 r2 c3 r3 full c4 r4 c5 r5 big c6 r6 show ?thesis by blast
qed

text \<open>
  The claim as stated fails where the elements are overwritten in place.
  \<^verbatim>\<open>Insert(begin(), x)\<close> on \<open>[1, 2, 3]\<close> with capacity \<open>4\<close> first shifts the elements to the right
  and then copies \<open>x\<close> into a temporary; when that copy throws, the elements are
  \<open>[1, 1, 2]\<close>. The copy assignment of \<open>[7, 8]\<close> to \<open>[1, 2]\<close> assigns element by element;
  when the second assignment throws, the elements are \<open>[7, 2]\<close>.
\<close>

theorem in_place_paths_break_strong_guarantee:
  "elements (snd (spare_triple 3)) (fst (spare_triple 3)) = [Some 1, Some 2, Some 3]
   \<and> Vector_Capacity (fst (spare_triple 3)) = 4
   \<and> fst (Insert (throwing_copy 3) 0 (ConstRef (Ext 9)) (fst (spare_triple 3)) (snd (spare_triple 3)))
       = Inl (Thrown CopyCtor)
   \<and> elements (snd (snd (Insert (throwing_copy 3) 0 (ConstRef (Ext 9)) (fst (spare_triple 3)) (snd (spare_triple 3)))))
        (fst (snd (Insert (throwing_copy 3) 0 (ConstRef (Ext 9)) (fst (spare_triple 3)) (snd (spare_triple 3)))))
       = [Some 1, Some 1, Some 2]
   \<and> elements (memory (two_pairs (throwing_assign 8))) (vectors (two_pairs (throwing_assign 8)) 0)
       = [Some 1, Some 2]
   \<and> elements (memory (two_pairs (throwing_assign 8))) (vectors (two_pairs (throwing_assign 8)) 1)
       = [Some 7, Some 8]
   \<and> fst (Vector_copy_assign (throwing_assign 8) 0 1 (two_pairs (throwing_assign 8))) = Inl (Thrown CopyAssign)
   \<and> elements (memory (snd (Vector_copy_assign (throwing_assign 8) 0 1 (two_pairs (throwing_assign 8)))))
        (vectors (snd (Vector_copy_assign (throwing_assign 8) 0 1 (two_pairs (throwing_assign 8)))) 0)
       = [Some 7, Some 2]"
  by code_simp

text \<open>
  Claim C5 (size and capacity after \<open>N\<close> appends to an empty vector). \<^verbatim>\<open>PushBack\<close> is
  \<^verbatim>\<open>EmplaceBack\<close> with the returned reference dropped, so a sequence of appends is a
  sequence of \<^verbatim>\<open>PushBack\<close> calls. When all \<open>N\<close> calls return, the size is \<open>N\<close> and the capacity
  is \<open>doubling N\<close>: it is at least \<open>N\<close>, and for \<open>N > 0\<close> it is the power of two with
  \<open>N \<le> capacity < 2 N\<close>. The calls do return when no operation of the element type throws
  and the arguments are objects of the caller's. One \<^verbatim>\<open>EmplaceBack\<close> that returns adds one to
  the size, and sets the capacity to \<open>max 1 (2 \<times> capacity)\<close> if the vector was full and leaves
  it as it was otherwise.
\<close>

theorem appends_size_and_capacity:
  "(fst (push_all T as Vector_default m) = Inr () \<longrightarrow>
      Size (fst (snd (push_all T as Vector_default m))) = length as
    \<and> Vector_Capacity (fst (snd (push_all T as Vector_default m))) = doubling (length as)
    \<and> length as \<le> Vector_Capacity (fst (snd (push_all T as Vector_default m)))
    \<and> (as \<noteq> [] \<longrightarrow>
         (\<exists>k. Vector_Capacity (fst (snd (push_all T as Vector_default m))) = 2 ^ k)
       \<and> Vector_Capacity (fst (snd (push_all T as Vector_default m))) < 2 * length as))
   \<and> (never_throws T \<and> (\<forall>a\<in>set as. \<exists>x. outside a x) \<longrightarrow> fst (push_all T as Vector_default m) = Inr ())
   \<and> (fst (EmplaceBack T a v m) = Inr p \<longrightarrow>
        Size (fst (snd (EmplaceBack T a v m))) = Size v + 1
      \<and> Vector_Capacity (fst (snd (EmplaceBack T a v m)))
          = (if Size v = Vector_Capacity v then max 1 (2 * Vector_Capacity v) else Vector_Capacity v))"
proof -
  have 1: "Size v' = length as \<and> Vector_Capacity v' = doubling (length as)
      \<and> length as \<le> Vector_Capacity v'
      \<and> (as \<noteq> [] \<longrightarrow> (\<exists>k. Vector_Capacity v' = 2 ^ k) \<and> Vector_Capacity v' < 2 * length as)"
    if "push_all T as Vector_default m = (Inr (), v', m')" for v' m'
  proof -
    have "Vector_Capacity Vector_default = doubling (vsize Vector_default)"
      by (simp add: Vector_default_def RawMemory_default_def Vector_Capacity_def Capacity_def)
    from push_all_fields[OF that this]
    have f: "vsize v' = length as" "Vector_Capacity v' = doubling (length as)"
      by (simp_all add: Vector_default_def)
    show ?thesis using doubling_bounds[of "length as"] f by (simp add: Size_def)
  qed
  have 2: "fst (push_all T as Vector_default m) = Inr ()"
    if "never_throws T" "\<forall>a\<in>set as. \<exists>x. outside a x"
    using push_all_ok[OF vec_ok_default that(2), where m = m and T = T] that(1)
    by (auto split: prod.splits sum.splits)
  have 3: "Size v' = Size v + 1
      \<and> Vector_Capacity v' = (if Size v = Vector_Capacity v then max 1 (2 * Vector_Capacity v) else Vector_Capacity v)"
    if "EmplaceBack T a v m = (Inr p, v', m')" for v' m'
    using EmplaceBack_fields[OF that] by (simp add: Size_def)
  show ?thesis
  proof (intro conjI impI)
    assume h: "fst (push_all T as Vector_default m) = Inr ()"
    then have e: "push_all T as Vector_default m
        = (Inr (), fst (snd (push_all T as Vector_default m)), snd (snd (push_all T as Vector_default m)))"
      by (metis prod.collapse)
    note r = 1[OF e]
    from r show "Size (fst (snd (push_all T as Vector_default m))) = length as" by simp
    from r show "Vector_Capacity (fst (snd (push_all T as Vector_default m))) = doubling (length as)" by simp
    from r show "length as \<le> Vector_Capacity (fst (snd (push_all T as Vector_default m)))" by simp
    assume "as \<noteq> []"
    with r show "\<exists>k. Vector_Capacity (fst (snd (push_all T as Vector_default m))) = 2 ^ k" by blast
    from r \<open>as \<noteq> []\<close> show "Vector_Capacity (fst (snd (push_all T as Vector_default m))) < 2 * length as" by simp
  next
    assume "never_throws T \<and> (\<forall>a\<in>set as. \<exists>x. outside a x)"
    then show "fst (push_all T as Vector_default m) = Inr ()" using 2 by simp
  next
    assume h: "fst (EmplaceBack T a v m) = Inr p"
    then have e: "EmplaceBack T a v m
        = (Inr p, fst (snd (EmplaceBack T a v m)), snd (snd (EmplaceBack T a v m)))"
      by (metis prod.collapse)
    note r = 3[OF e]
    from r show "Size (fst (snd (EmplaceBack T a v m))) = Size v + 1" by simp
    from r show "Vector_Capacity (fst (snd (EmplaceBack T a v m)))
          = (if Size v = Vector_Capacity v then max 1 (2 * Vector_Capacity v) else Vector_Capacity v)" by simp
  qed
qed

theorem appends_size_and_capacity_witness:
  "fst (push_all plain [ConstRef (Ext 1), RvalueRef (Ext 2), ConstRef (Ext 3)] Vector_default empty_mem) = Inr ()
   \<and> Size (fst (snd (push_all plain [ConstRef (Ext 1), RvalueRef (Ext 2), ConstRef (Ext 3)] Vector_default empty_mem))) = 3
   \<and> Vector_Capacity (fst (snd (push_all plain [ConstRef (Ext 1), RvalueRef (Ext 2), ConstRef (Ext 3)] Vector_default empty_mem))) = 4
   \<and> [ConstRef (Ext 1), RvalueRef (Ext 2), ConstRef (Ext (3::int))] \<noteq> []
   \<and> never_throws plain
   \<and> outside (ConstRef (Ext 1)) (1::int) \<and> outside (RvalueRef (Ext 2)) (2::int)
   \<and> outside (ConstRef (Ext 3)) (3::int)
   \<and> fst (EmplaceBack plain (ConstRef (Ext 4)) Vector_default empty_mem) = Inr (Some 0, 0)
   \<and> Size (fst (snd (EmplaceBack plain (ConstRef (Ext 4)) Vector_default empty_mem))) = 1
   \<and> Vector_Capacity (fst (snd (EmplaceBack plain (ConstRef (Ext 4)) Vector_default empty_mem))) = 1"
proof -
  have c1: "fst (push_all plain [ConstRef (Ext 1), RvalueRef (Ext 2), ConstRef (Ext 3)] Vector_default empty_mem) = Inr ()"
    by code_simp
  have c2: "fst (EmplaceBack plain (ConstRef (Ext 4)) Vector_default empty_mem) = Inr (Some 0, 0)"
    by code_simp
  have c3: "\<forall>a\<in>set [ConstRef (Ext 1), RvalueRef (Ext 2), ConstRef (Ext (3::int))]. \<exists>x. outside a x"
    by (simp add: outside_def)
  have c4: "doubling 3 = 4" by (simp add: eval_nat_numeral)
  have c5: "Size Vector_default = 0" "Vector_Capacity (Vector_default) = 0"
    by (simp_all add: Size_def Vector_default_def RawMemory_default_def Vector_Capacity_def Capacity_def)
  show ?thesis
    using appends_size_and_capacity[of plain "[ConstRef (Ext 1), RvalueRef (Ext 2), ConstRef (Ext 3)]" empty_mem
        "ConstRef (Ext 4)" Vector_default "(Some 0, 0)"] c1 c2 c3 c4 c5 never_throws_plain
    by (simp add: outside_def)
qed

text \<open>
  Claim C6 (a reallocation moves the elements if and only if the move constructor cannot
  throw or there is no copy constructor, and copies them otherwise). For \<^verbatim>\<open>Reserve\<close> beyond
  the capacity, and for \<^verbatim>\<open>EmplaceBack\<close> and \<^verbatim>\<open>Emplace\<close> on a full vector with an argument of
  the caller's: the call returns when no operation of the element type throws; when it
  returns, the events it has added to the trace are the construction of the new element
  (not for \<^verbatim>\<open>Reserve\<close>), then for each element one construction in the new block from the
  element in the old block, by the move constructor under that condition and by the copy
  constructor otherwise, then the destruction of the elements of the old block; and when
  the copy constructor throws in the copying case, the vector and its elements are as
  before the call.
\<close>

theorem reallocation_moves_or_copies:
  "(vec_ok m v \<and> Vector_Capacity v < nc \<longrightarrow>
      (never_throws T \<longrightarrow> fst (Reserve T nc v m) = Inr ())
    \<and> (fst (Reserve T nc v m) = Inr () \<longrightarrow>
         trace (snd (snd (Reserve T nc v m))) = trace m
           @ map (\<lambda>t. EvOp (if nothrow_move_constructible T \<or> \<not> copy_constructible T then MoveCtor else CopyCtor)
                    (Cell (buffer (data v)) t) (Cell (Some (next_block m)) t)) [0..<Size v]
           @ map (\<lambda>t. EvDestroy (Cell (buffer (data v)) t)) [0..<Size v])
    \<and> (\<not> nothrow_move_constructible T \<and> copy_constructible T
         \<and> fst (Reserve T nc v m) = Inl (Thrown CopyCtor) \<longrightarrow>
         fst (snd (Reserve T nc v m)) = v
       \<and> elements (snd (snd (Reserve T nc v m))) v = elements m v))
   \<and> (vec_ok m v \<and> Size v = Vector_Capacity v \<and> outside a x \<longrightarrow>
      (never_throws T \<longrightarrow> (\<exists>p. fst (EmplaceBack T a v m) = Inr p))
    \<and> ((\<exists>p. fst (EmplaceBack T a v m) = Inr p) \<longrightarrow>
         trace (snd (snd (EmplaceBack T a v m))) = trace m
           @ [EvOp (arg_kind a) Outside (Cell (Some (next_block m)) (Size v))]
           @ map (\<lambda>t. EvOp (if nothrow_move_constructible T \<or> \<not> copy_constructible T then MoveCtor else CopyCtor)
                    (Cell (buffer (data v)) t) (Cell (Some (next_block m)) t)) [0..<Size v]
           @ map (\<lambda>t. EvDestroy (Cell (buffer (data v)) t)) [0..<Size v])
    \<and> (\<not> nothrow_move_constructible T \<and> copy_constructible T
         \<and> fst (EmplaceBack T a v m) = Inl (Thrown CopyCtor) \<longrightarrow>
         fst (snd (EmplaceBack T a v m)) = v
       \<and> elements (snd (snd (EmplaceBack T a v m))) v = elements m v))
   \<and> (vec_ok m v \<and> Size v = Vector_Capacity v \<and> outside a x \<and> index \<le> Size v \<longrightarrow>
      (never_throws T \<longrightarrow> (\<exists>p. fst (Emplace T index a v m) = Inr p))
    \<and> ((\<exists>p. fst (Emplace T index a v m) = Inr p) \<longrightarrow>
         trace (snd (snd (Emplace T index a v m))) = trace m
           @ [EvOp (arg_kind a) Outside (Cell (Some (next_block m)) index)]
           @ map (\<lambda>t. EvOp (if nothrow_move_constructible T \<or> \<not> copy_constructible T then MoveCtor else CopyCtor)
                    (Cell (buffer (data v)) t) (Cell (Some (next_block m)) t)) [0..<index]
           @ map (\<lambda>t. EvOp (if nothrow_move_constructible T \<or> \<not> copy_constructible T then MoveCtor else CopyCtor)
                    (Cell (buffer (data v)) (index + t)) (Cell (Some (next_block m)) (index + 1 + t)))
               [0..<Size v - index]
           @ map (\<lambda>t. EvDestroy (Cell (buffer (data v)) t)) [0..<Size v])
    \<and> (\<not> nothrow_move_constructible T \<and> copy_constructible T
         \<and> fst (Emplace T index a v m) = Inl (Thrown CopyCtor) \<longrightarrow>
         fst (snd (Emplace T index a v m)) = v
       \<and> elements (snd (snd (Emplace T index a v m))) v = elements m v))"
proof -
  have K: "(if nothrow_move_constructible T \<or> \<not> copy_constructible T then MoveCtor else CopyCtor)
      = transplant_kind T"
    by (simp add: transplant_kind_def)
  have 1: "(never_throws T \<longrightarrow> fst (Reserve T nc v m) = Inr ())
    \<and> (fst (Reserve T nc v m) = Inr () \<longrightarrow>
         trace (snd (snd (Reserve T nc v m))) = trace m
           @ map (\<lambda>t. EvOp (transplant_kind T) (Cell (buffer (data v)) t) (Cell (Some (next_block m)) t)) [0..<vsize v]
           @ map (\<lambda>t. EvDestroy (Cell (buffer (data v)) t)) [0..<vsize v])
    \<and> (fst (Reserve T nc v m) = Inl (Thrown CopyCtor) \<longrightarrow>
         fst (snd (Reserve T nc v m)) = v
       \<and> elements (snd (snd (Reserve T nc v m))) v = elements m v)"
    if ok: "vec_ok m v" and big: "Vector_Capacity v < nc"
  proof -
    obtain r v' m' where c: "Reserve T nc v m = (r, v', m')" by (cases "Reserve T nc v m") auto
    have big': "capacity (data v) < nc" using big by (simp add: Vector_Capacity_def Capacity_def)
    note s = Reserve_ok[OF ok big', of T]
    have f: "v' = v \<and> elements m' v = elements m v" if "r = Inl (Thrown CopyCtor)"
    proof -
      from Reserve_strong[OF c[unfolded that]] have k: "v' = v \<and> kept (next_block m) m m'" by simp
      with kept_elements[of m m' v] ok show ?thesis by simp
    qed
    show ?thesis
    proof (cases r)
      case (Inl g)
      from s have "\<not> never_throws T" unfolding c Inl by simp
      with f[unfolded Inl] show ?thesis unfolding c Inl by simp
    next
      case (Inr u)
      from s show ?thesis unfolding c Inr by simp
    qed
  qed
  have 2: "(never_throws T \<longrightarrow> (\<exists>p. fst (EmplaceBack T a v m) = Inr p))
    \<and> ((\<exists>p. fst (EmplaceBack T a v m) = Inr p) \<longrightarrow>
         trace (snd (snd (EmplaceBack T a v m))) = trace m
           @ [EvOp (arg_kind a) Outside (Cell (Some (next_block m)) (vsize v))]
           @ map (\<lambda>t. EvOp (transplant_kind T) (Cell (buffer (data v)) t) (Cell (Some (next_block m)) t)) [0..<vsize v]
           @ map (\<lambda>t. EvDestroy (Cell (buffer (data v)) t)) [0..<vsize v])
    \<and> (fst (EmplaceBack T a v m) = Inl (Thrown CopyCtor) \<longrightarrow>
         fst (snd (EmplaceBack T a v m)) = v
       \<and> elements (snd (snd (EmplaceBack T a v m))) v = elements m v)"
    if ok: "vec_ok m v" and full: "vsize v = Vector_Capacity v" and a: "outside a x"
  proof -
    obtain r v' m' where c: "EmplaceBack T a v m = (r, v', m')" by (cases "EmplaceBack T a v m") auto
    note s = EmplaceBack_full_ok[OF ok a full, of T]
    have f: "v' = v \<and> elements m' v = elements m v" if "r = Inl (Thrown CopyCtor)"
    proof -
      from EmplaceBack_strong[OF c[unfolded that] _ outside_keeps_source[OF a]]
      have k: "v' = v \<and> kept (next_block m) m m'" by simp
      with kept_elements[of m m' v] ok show ?thesis by simp
    qed
    show ?thesis
    proof (cases r)
      case (Inl g)
      from s have "\<not> never_throws T" unfolding c Inl by simp
      with f[unfolded Inl] show ?thesis unfolding c Inl by simp
    next
      case (Inr u)
      from s show ?thesis unfolding c Inr by simp
    qed
  qed
  have 3: "(never_throws T \<longrightarrow> (\<exists>p. fst (Emplace T index a v m) = Inr p))
    \<and> ((\<exists>p. fst (Emplace T index a v m) = Inr p) \<longrightarrow>
         trace (snd (snd (Emplace T index a v m))) = trace m
           @ [EvOp (arg_kind a) Outside (Cell (Some (next_block m)) index)]
           @ map (\<lambda>t. EvOp (transplant_kind T) (Cell (buffer (data v)) t) (Cell (Some (next_block m)) t)) [0..<index]
           @ map (\<lambda>t. EvOp (transplant_kind T) (Cell (buffer (data v)) (index + t))
                    (Cell (Some (next_block m)) (index + 1 + t))) [0..<vsize v - index]
           @ map (\<lambda>t. EvDestroy (Cell (buffer (data v)) t)) [0..<vsize v])
    \<and> (fst (Emplace T index a v m) = Inl (Thrown CopyCtor) \<longrightarrow>
         fst (snd (Emplace T index a v m)) = v
       \<and> elements (snd (snd (Emplace T index a v m))) v = elements m v)"
    if ok: "vec_ok m v" and full: "vsize v = Vector_Capacity v" and a: "outside a x"
      and idx: "index \<le> vsize v"
  proof -
    obtain r v' m' where c: "Emplace T index a v m = (r, v', m')" by (cases "Emplace T index a v m") auto
    note s = Emplace_full_ok[OF ok idx a full, of T]
    have f: "v' = v \<and> elements m' v = elements m v" if "r = Inl (Thrown CopyCtor)"
    proof -
      from Emplace_strong[OF c[unfolded that] _ outside_keeps_source[OF a]] full
      have k: "v' = v \<and> kept (next_block m) m m'" by simp
      with kept_elements[of m m' v] ok show ?thesis by simp
    qed
    show ?thesis
    proof (cases r)
      case (Inl g)
      from s have "\<not> never_throws T" unfolding c Inl by simp
      with f[unfolded Inl] show ?thesis unfolding c Inl by simp
    next
      case (Inr u)
      from s show ?thesis unfolding c Inr by simp
    qed
  qed
  show ?thesis
    unfolding K Size_def
  proof (intro conjI)
    show "vec_ok m v \<and> Vector_Capacity v < nc \<longrightarrow>
      (never_throws T \<longrightarrow> fst (Reserve T nc v m) = Inr ())
    \<and> (fst (Reserve T nc v m) = Inr () \<longrightarrow>
         trace (snd (snd (Reserve T nc v m))) = trace m
           @ map (\<lambda>t. EvOp (transplant_kind T) (Cell (buffer (data v)) t) (Cell (Some (next_block m)) t)) [0..<vsize v]
           @ map (\<lambda>t. EvDestroy (Cell (buffer (data v)) t)) [0..<vsize v])
    \<and> (\<not> nothrow_move_constructible T \<and> copy_constructible T
         \<and> fst (Reserve T nc v m) = Inl (Thrown CopyCtor) \<longrightarrow>
         fst (snd (Reserve T nc v m)) = v
       \<and> elements (snd (snd (Reserve T nc v m))) v = elements m v)"
      using 1 by simp
    show "vec_ok m v \<and> vsize v = Vector_Capacity v \<and> outside a x \<longrightarrow>
      (never_throws T \<longrightarrow> (\<exists>p. fst (EmplaceBack T a v m) = Inr p))
    \<and> ((\<exists>p. fst (EmplaceBack T a v m) = Inr p) \<longrightarrow>
         trace (snd (snd (EmplaceBack T a v m))) = trace m
           @ [EvOp (arg_kind a) Outside (Cell (Some (next_block m)) (vsize v))]
           @ map (\<lambda>t. EvOp (transplant_kind T) (Cell (buffer (data v)) t) (Cell (Some (next_block m)) t)) [0..<vsize v]
           @ map (\<lambda>t. EvDestroy (Cell (buffer (data v)) t)) [0..<vsize v])
    \<and> (\<not> nothrow_move_constructible T \<and> copy_constructible T
         \<and> fst (EmplaceBack T a v m) = Inl (Thrown CopyCtor) \<longrightarrow>
         fst (snd (EmplaceBack T a v m)) = v
       \<and> elements (snd (snd (EmplaceBack T a v m))) v = elements m v)"
      using 2 by simp
    show "vec_ok m v \<and> vsize v = Vector_Capacity v \<and> outside a x \<and> index \<le> vsize v \<longrightarrow>
      (never_throws T \<longrightarrow> (\<exists>p. fst (Emplace T index a v m) = Inr p))
    \<and> ((\<exists>p. fst (Emplace T index a v m) = Inr p) \<longrightarrow>
         trace (snd (snd (Emplace T index a v m))) = trace m
           @ [EvOp (arg_kind a) Outside (Cell (Some (next_block m)) index)]
           @ map (\<lambda>t. EvOp (transplant_kind T) (Cell (buffer (data v)) t) (Cell (Some (next_block m)) t)) [0..<index]
           @ map (\<lambda>t. EvOp (transplant_kind T) (Cell (buffer (data v)) (index + t))
                    (Cell (Some (next_block m)) (index + 1 + t))) [0..<vsize v - index]
           @ map (\<lambda>t. EvDestroy (Cell (buffer (data v)) t)) [0..<vsize v])
    \<and> (\<not> nothrow_move_constructible T \<and> copy_constructible T
         \<and> fst (Emplace T index a v m) = Inl (Thrown CopyCtor) \<longrightarrow>
         fst (snd (Emplace T index a v m)) = v
       \<and> elements (snd (snd (Emplace T index a v m))) v = elements m v)"
      using 3 by simp
  qed
qed

theorem reallocation_moves_or_copies_witness:
  "vec_ok (snd copied_pair) (fst copied_pair)
   \<and> Vector_Capacity (fst copied_pair) < 4
   \<and> Size (fst copied_pair) = Vector_Capacity (fst copied_pair)
   \<and> outside (RvalueRef (Ext 3)) (3::int)
   \<and> (1::nat) \<le> Size (fst copied_pair)
   \<and> never_throws copy_only
   \<and> fst (Reserve copy_only 4 (fst copied_pair) (snd copied_pair)) = Inr ()
   \<and> trace (snd (snd (Reserve copy_only 4 (fst copied_pair) (snd copied_pair)))) = trace (snd copied_pair)
        @ [EvOp CopyCtor (Cell (Some 1) 0) (Cell (Some 2) 0), EvOp CopyCtor (Cell (Some 1) 1) (Cell (Some 2) 1),
           EvDestroy (Cell (Some 1) 0), EvDestroy (Cell (Some 1) 1)]
   \<and> fst (EmplaceBack copy_only (RvalueRef (Ext 3)) (fst copied_pair) (snd copied_pair)) = Inr (Some 2, 2)
   \<and> trace (snd (snd (EmplaceBack copy_only (RvalueRef (Ext 3)) (fst copied_pair) (snd copied_pair))))
        = trace (snd copied_pair)
        @ [EvOp MoveCtor Outside (Cell (Some 2) 2),
           EvOp CopyCtor (Cell (Some 1) 0) (Cell (Some 2) 0), EvOp CopyCtor (Cell (Some 1) 1) (Cell (Some 2) 1),
           EvDestroy (Cell (Some 1) 0), EvDestroy (Cell (Some 1) 1)]
   \<and> fst (Emplace copy_only 1 (RvalueRef (Ext 3)) (fst copied_pair) (snd copied_pair)) = Inr (Some 2, 1)
   \<and> trace (snd (snd (Emplace copy_only 1 (RvalueRef (Ext 3)) (fst copied_pair) (snd copied_pair))))
        = trace (snd copied_pair)
        @ [EvOp MoveCtor Outside (Cell (Some 2) 1),
           EvOp CopyCtor (Cell (Some 1) 0) (Cell (Some 2) 0), EvOp CopyCtor (Cell (Some 1) 1) (Cell (Some 2) 2),
           EvDestroy (Cell (Some 1) 0), EvDestroy (Cell (Some 1) 1)]
   \<and> vec_ok (snd (full_pair 1)) (fst (full_pair 1))
   \<and> Vector_Capacity (fst (full_pair 1)) < 4
   \<and> Size (fst (full_pair 1)) = Vector_Capacity (fst (full_pair 1))
   \<and> (0::nat) \<le> Size (fst (full_pair 1))
   \<and> \<not> nothrow_move_constructible (throwing_copy 1) \<and> copy_constructible (throwing_copy 1)
   \<and> fst (Reserve (throwing_copy 1) 4 (fst (full_pair 1)) (snd (full_pair 1))) = Inl (Thrown CopyCtor)
   \<and> fst (snd (Reserve (throwing_copy 1) 4 (fst (full_pair 1)) (snd (full_pair 1)))) = fst (full_pair 1)
   \<and> elements (snd (snd (Reserve (throwing_copy 1) 4 (fst (full_pair 1)) (snd (full_pair 1))))) (fst (full_pair 1))
        = [Some 1, Some 2]
   \<and> fst (EmplaceBack (throwing_copy 1) (RvalueRef (Ext 3)) (fst (full_pair 1)) (snd (full_pair 1)))
        = Inl (Thrown CopyCtor)
   \<and> fst (snd (EmplaceBack (throwing_copy 1) (RvalueRef (Ext 3)) (fst (full_pair 1)) (snd (full_pair 1))))
        = fst (full_pair 1)
   \<and> elements (snd (snd (EmplaceBack (throwing_copy 1) (RvalueRef (Ext 3)) (fst (full_pair 1)) (snd (full_pair 1)))))
        (fst (full_pair 1)) = [Some 1, Some 2]
   \<and> fst (Emplace (throwing_copy 1) 0 (RvalueRef (Ext 3)) (fst (full_pair 1)) (snd (full_pair 1)))
        = Inl (Thrown CopyCtor)
   \<and> fst (snd (Emplace (throwing_copy 1) 0 (RvalueRef (Ext 3)) (fst (full_pair 1)) (snd (full_pair 1))))
        = fst (full_pair 1)
   \<and> elements (snd (snd (Emplace (throwing_copy 1) 0 (RvalueRef (Ext 3)) (fst (full_pair 1)) (snd (full_pair 1)))))
        (fst (full_pair 1)) = [Some 1, Some 2]"
proof -
  have a1: "vec_ok (snd copied_pair) (fst copied_pair)" by code_simp
  have a2: "fst copied_pair = \<lparr>data = \<lparr>buffer = Some 1, capacity = 2\<rparr>, vsize = 2\<rparr>" by code_simp
  have a3: "next_block (snd copied_pair) = 2" by code_simp
  have a4: "fst (Reserve copy_only 4 (fst copied_pair) (snd copied_pair)) = Inr ()" by code_simp
  have a5: "fst (EmplaceBack copy_only (RvalueRef (Ext 3)) (fst copied_pair) (snd copied_pair)) = Inr (Some 2, 2)"
    by code_simp
  have a6: "fst (Emplace copy_only 1 (RvalueRef (Ext 3)) (fst copied_pair) (snd copied_pair)) = Inr (Some 2, 1)"
    by code_simp
  have b1: "vec_ok (snd (full_pair 1)) (fst (full_pair 1))" by code_simp
  have b2: "fst (full_pair 1) = \<lparr>data = \<lparr>buffer = Some 1, capacity = 2\<rparr>, vsize = 2\<rparr>" by code_simp
  have b3: "elements (snd (full_pair 1)) (fst (full_pair 1)) = [Some 1, Some 2]" by code_simp
  have b4: "fst (Reserve (throwing_copy 1) 4 (fst (full_pair 1)) (snd (full_pair 1))) = Inl (Thrown CopyCtor)"
    by code_simp
  have b5: "fst (EmplaceBack (throwing_copy 1) (RvalueRef (Ext 3)) (fst (full_pair 1)) (snd (full_pair 1)))
        = Inl (Thrown CopyCtor)"
    by code_simp
  have b6: "fst (Emplace (throwing_copy 1) 0 (RvalueRef (Ext 3)) (fst (full_pair 1)) (snd (full_pair 1)))
        = Inl (Thrown CopyCtor)"
    by code_simp
  have o: "outside (RvalueRef (Ext 3)) (3::int)" by (simp add: outside_def)
  have u: "[0..<2] = [0, Suc 0]" "[0..<Suc 0] = [0]" "(2::nat) - 1 = Suc 0" by (simp_all add: upt_rec)
  have t: "nothrow_move_constructible copy_only = False" "copy_constructible copy_only = True"
    "nothrow_move_constructible (throwing_copy 1) = False" "copy_constructible (throwing_copy 1) = True"
    by (simp_all add: copy_only_def throwing_copy_def)
  have A: "fst (Reserve copy_only 4 (fst copied_pair) (snd copied_pair)) = Inr ()
   \<and> trace (snd (snd (Reserve copy_only 4 (fst copied_pair) (snd copied_pair)))) = trace (snd copied_pair)
        @ [EvOp CopyCtor (Cell (Some 1) 0) (Cell (Some 2) 0), EvOp CopyCtor (Cell (Some 1) 1) (Cell (Some 2) 1),
           EvDestroy (Cell (Some 1) 0), EvDestroy (Cell (Some 1) 1)]
   \<and> fst (EmplaceBack copy_only (RvalueRef (Ext 3)) (fst copied_pair) (snd copied_pair)) = Inr (Some 2, 2)
   \<and> trace (snd (snd (EmplaceBack copy_only (RvalueRef (Ext 3)) (fst copied_pair) (snd copied_pair))))
        = trace (snd copied_pair)
        @ [EvOp MoveCtor Outside (Cell (Some 2) 2),
           EvOp CopyCtor (Cell (Some 1) 0) (Cell (Some 2) 0), EvOp CopyCtor (Cell (Some 1) 1) (Cell (Some 2) 1),
           EvDestroy (Cell (Some 1) 0), EvDestroy (Cell (Some 1) 1)]
   \<and> fst (Emplace copy_only 1 (RvalueRef (Ext 3)) (fst copied_pair) (snd copied_pair)) = Inr (Some 2, 1)
   \<and> trace (snd (snd (Emplace copy_only 1 (RvalueRef (Ext 3)) (fst copied_pair) (snd copied_pair))))
        = trace (snd copied_pair)
        @ [EvOp MoveCtor Outside (Cell (Some 2) 1),
           EvOp CopyCtor (Cell (Some 1) 0) (Cell (Some 2) 0), EvOp CopyCtor (Cell (Some 1) 1) (Cell (Some 2) 2),
           EvDestroy (Cell (Some 1) 0), EvDestroy (Cell (Some 1) 1)]"
    using reallocation_moves_or_copies[of "snd copied_pair" "fst copied_pair" 4 copy_only
        "RvalueRef (Ext 3)" 3 1] a1 a4 a5 a6 o never_throws_copy_only
    by (simp add: a2 a3 u t Size_def Vector_Capacity_def Capacity_def arg_kind_def)
  have B: "fst (snd (Reserve (throwing_copy 1) 4 (fst (full_pair 1)) (snd (full_pair 1)))) = fst (full_pair 1)
   \<and> elements (snd (snd (Reserve (throwing_copy 1) 4 (fst (full_pair 1)) (snd (full_pair 1))))) (fst (full_pair 1))
        = [Some 1, Some 2]
   \<and> fst (snd (EmplaceBack (throwing_copy 1) (RvalueRef (Ext 3)) (fst (full_pair 1)) (snd (full_pair 1))))
        = fst (full_pair 1)
   \<and> elements (snd (snd (EmplaceBack (throwing_copy 1) (RvalueRef (Ext 3)) (fst (full_pair 1)) (snd (full_pair 1)))))
        (fst (full_pair 1)) = [Some 1, Some 2]
   \<and> fst (snd (Emplace (throwing_copy 1) 0 (RvalueRef (Ext 3)) (fst (full_pair 1)) (snd (full_pair 1))))
        = fst (full_pair 1)
   \<and> elements (snd (snd (Emplace (throwing_copy 1) 0 (RvalueRef (Ext 3)) (fst (full_pair 1)) (snd (full_pair 1)))))
        (fst (full_pair 1)) = [Some 1, Some 2]"
    using reallocation_moves_or_copies[of "snd (full_pair 1)" "fst (full_pair 1)" 4 "throwing_copy 1"
        "RvalueRef (Ext 3)" 3 0] b1 b2 b3 b4 b5 b6 o t
    by (simp add: Size_def Vector_Capacity_def Capacity_def)
  show ?thesis
    using A B a1 a2 b1 b2 b4 b5 b6 o t never_throws_copy_only
    by (simp add: Size_def Vector_Capacity_def Capacity_def)
qed

text \<open>
  Claim C7 (inserting a value \<open>V\<close> at a position \<open>P\<close> puts \<open>V\<close> at \<open>P\<close> and keeps the other
  elements in their order) fails when the value is an element of the vector itself and the
  vector has spare capacity. Without reallocation \<^verbatim>\<open>Emplace\<close> first moves the last element to
  \<^verbatim>\<open>end()\<close> and shifts the elements from the position on by \<^verbatim>\<open>std::move_backward\<close>, and only then
  reads the argument in \<^verbatim>\<open>data_[index] = T(std::forward<Args>(args)...)\<close>. On \<open>[1, 2, 3]\<close> with
  capacity \<open>4\<close>, \<^verbatim>\<open>Insert(begin(), v[2])\<close> is called with the value \<open>3\<close>, but the cell of \<^verbatim>\<open>v[2]\<close>
  holds \<open>2\<close> when it is read: the result is \<open>[2, 1, 2, 3]\<close>, not \<open>[3, 1, 2, 3]\<close>. With
  reallocation the new element is constructed before any element is moved, and the same
  call on the full vector \<open>[1, 2]\<close> with \<^verbatim>\<open>v[1]\<close> gives \<open>[2, 1, 2]\<close>.
\<close>

theorem Insert_own_element_after_shift:
  "elements (snd spare_plain) (fst spare_plain) = [Some 1, Some 2, Some 3]
   \<and> Size (fst spare_plain) = 3 \<and> Vector_Capacity (fst spare_plain) = 4
   \<and> Vector_index (fst spare_plain) 2 = Inr (Some 2, 2)
   \<and> load (snd spare_plain) (At (Some 2) 2) = Inr 3
   \<and> fst (Insert plain 0 (ConstRef (At (Some 2) 2)) (fst spare_plain) (snd spare_plain)) = Inr (Some 2, 0)
   \<and> elements (snd (snd (Insert plain 0 (ConstRef (At (Some 2) 2)) (fst spare_plain) (snd spare_plain))))
        (fst (snd (Insert plain 0 (ConstRef (At (Some 2) 2)) (fst spare_plain) (snd spare_plain))))
       = [Some 2, Some 1, Some 2, Some 3]
   \<and> elements (snd (snd (Emplace plain 0 (ConstRef (At (Some 2) 2)) (fst spare_plain) (snd spare_plain))))
        (fst (snd (Emplace plain 0 (ConstRef (At (Some 2) 2)) (fst spare_plain) (snd spare_plain))))
       = [Some 2, Some 1, Some 2, Some 3]
   \<and> elements (snd full_plain) (fst full_plain) = [Some 1, Some 2]
   \<and> Size (fst full_plain) = 2 \<and> Vector_Capacity (fst full_plain) = 2
   \<and> Vector_index (fst full_plain) 1 = Inr (Some 1, 1)
   \<and> load (snd full_plain) (At (Some 1) 1) = Inr 2
   \<and> elements (snd (snd (Insert plain 0 (ConstRef (At (Some 1) 1)) (fst full_plain) (snd full_plain))))
        (fst (snd (Insert plain 0 (ConstRef (At (Some 1) 1)) (fst full_plain) (snd full_plain))))
       = [Some 2, Some 1, Some 2]"
  by code_simp

text \<open>
  Claim C8 (\<^verbatim>\<open>Erase\<close> removes the element at the position and keeps the others in their
  order). On a vector with \<open>index < Size\<close>: the call returns when no operation of the element
  type throws; when it returns, the size is one less, the elements are the old ones without
  the one at \<open>index\<close>, in their order, and the returned iterator is \<^verbatim>\<open>begin() + index\<close> of the
  same block: the element there is the one that followed the erased one, or, when the last
  element was erased, it is \<^verbatim>\<open>end()\<close>. On a vector of size \<open>0\<close> the assertion \<^verbatim>\<open>size_ > 0\<close> fails.
\<close>

theorem Erase_removes_one_element:
  "(vec_ok m v \<and> index < Size v \<longrightarrow>
      (never_throws T \<longrightarrow> (\<exists>p. fst (Erase T index v m) = Inr p))
    \<and> ((\<exists>p. fst (Erase T index v m) = Inr p) \<longrightarrow>
         fst (Erase T index v m) = Inr (buffer (data v), index)
       \<and> data (fst (snd (Erase T index v m))) = data v
       \<and> Size (fst (snd (Erase T index v m))) = Size v - 1
       \<and> vec_ok (snd (snd (Erase T index v m))) (fst (snd (Erase T index v m)))
       \<and> elements (snd (snd (Erase T index v m))) (fst (snd (Erase T index v m)))
           = take index (elements m v) @ drop (Suc index) (elements m v)
       \<and> (Suc index < Size v \<longrightarrow>
            elements (snd (snd (Erase T index v m))) (fst (snd (Erase T index v m))) ! index
              = elements m v ! Suc index)
       \<and> (Suc index = Size v \<longrightarrow> index = Size (fst (snd (Erase T index v m))))))
   \<and> (Size v = 0 \<longrightarrow> Erase T index v m = (Inl AssertFailed, v, m))"
proof (intro conjI impI)
  assume "Size v = 0"
  then show "Erase T index v m = (Inl AssertFailed, v, m)"
    by (simp add: Size_def Erase_empty)
next
  assume h: "vec_ok m v \<and> index < Size v"
  then have ok: "vec_ok m v" and idx: "index < vsize v" by (simp_all add: Size_def)
  obtain r v' m' where c: "Erase T index v m = (r, v', m')" by (cases "Erase T index v m") auto
  note s = Erase_ok[OF ok idx, of T]
  have len: "length (elements m v) = vsize v" using ok by simp
  {
    assume "never_throws T"
    with s show "\<exists>p. fst (Erase T index v m) = Inr p" unfolding c by (cases r) auto
  }
  {
    assume "\<exists>p. fst (Erase T index v m) = Inr p"
    then obtain p where r: "r = Inr p" unfolding c by auto
    from s have p: "p = (buffer (data v'), index)" and sz: "vsize v' = vsize v - 1"
      and d: "data v' = data v" and ok': "vec_ok m' v'"
      and el: "elements m' v' = take index (elements m v) @ drop (Suc index) (elements m v)"
      unfolding c r by simp_all
    show "fst (Erase T index v m) = Inr (buffer (data v), index)" unfolding c r using p d by simp
    show "data (fst (snd (Erase T index v m))) = data v" unfolding c using d by simp
    show "Size (fst (snd (Erase T index v m))) = Size v - 1" unfolding c using sz by (simp add: Size_def)
    show "vec_ok (snd (snd (Erase T index v m))) (fst (snd (Erase T index v m)))" unfolding c using ok' by simp
    show "elements (snd (snd (Erase T index v m))) (fst (snd (Erase T index v m)))
           = take index (elements m v) @ drop (Suc index) (elements m v)"
      unfolding c using el by simp
    {
      assume "Suc index < Size v"
      then have "(take index (elements m v) @ drop (Suc index) (elements m v)) ! index = elements m v ! Suc index"
        using len idx by (simp add: nth_append Size_def)
      then show "elements (snd (snd (Erase T index v m))) (fst (snd (Erase T index v m))) ! index
              = elements m v ! Suc index"
        unfolding c using el by simp
    }
    {
      assume "Suc index = Size v"
      then show "index = Size (fst (snd (Erase T index v m)))"
        unfolding c using sz by (simp add: Size_def)
    }
  }
qed

theorem Erase_removes_one_element_witness:
  "vec_ok (snd spare_plain) (fst spare_plain)
   \<and> elements (snd spare_plain) (fst spare_plain) = [Some 1, Some 2, Some 3]
   \<and> (0::nat) < Size (fst spare_plain) \<and> Suc 0 < Size (fst spare_plain)
   \<and> never_throws plain
   \<and> fst (Erase plain 0 (fst spare_plain) (snd spare_plain)) = Inr (Some 2, 0)
   \<and> Size (fst (snd (Erase plain 0 (fst spare_plain) (snd spare_plain)))) = 2
   \<and> elements (snd (snd (Erase plain 0 (fst spare_plain) (snd spare_plain))))
        (fst (snd (Erase plain 0 (fst spare_plain) (snd spare_plain)))) = [Some 2, Some 3]
   \<and> elements (snd (snd (Erase plain 0 (fst spare_plain) (snd spare_plain))))
        (fst (snd (Erase plain 0 (fst spare_plain) (snd spare_plain)))) ! 0 = Some 2
   \<and> (2::nat) < Size (fst spare_plain) \<and> Suc 2 = Size (fst spare_plain)
   \<and> fst (Erase plain 2 (fst spare_plain) (snd spare_plain)) = Inr (Some 2, 2)
   \<and> Size (fst (snd (Erase plain 2 (fst spare_plain) (snd spare_plain)))) = 2
   \<and> elements (snd (snd (Erase plain 2 (fst spare_plain) (snd spare_plain))))
        (fst (snd (Erase plain 2 (fst spare_plain) (snd spare_plain)))) = [Some 1, Some 2]
   \<and> Size Vector_default = 0
   \<and> Erase plain 0 Vector_default (empty_mem :: int mem) = (Inl AssertFailed, Vector_default, empty_mem)"
proof -
  have a1: "vec_ok (snd spare_plain) (fst spare_plain)" by code_simp
  have a2: "fst spare_plain = \<lparr>data = \<lparr>buffer = Some 2, capacity = 4\<rparr>, vsize = 3\<rparr>" by code_simp
  have a3: "elements (snd spare_plain) (fst spare_plain) = [Some 1, Some 2, Some 3]" by code_simp
  have a4: "fst (Erase plain 0 (fst spare_plain) (snd spare_plain)) = Inr (Some 2, 0)" by code_simp
  have a5: "fst (Erase plain 2 (fst spare_plain) (snd spare_plain)) = Inr (Some 2, 2)" by code_simp
  have z: "Size Vector_default = 0" by (simp add: Size_def Vector_default_def)
  have A: "Size (fst (snd (Erase plain 0 (fst spare_plain) (snd spare_plain)))) = 2
   \<and> elements (snd (snd (Erase plain 0 (fst spare_plain) (snd spare_plain))))
        (fst (snd (Erase plain 0 (fst spare_plain) (snd spare_plain)))) = [Some 2, Some 3]"
    using Erase_removes_one_element[of "snd spare_plain" "fst spare_plain" 0 plain] a1 a3 a4
    by (simp add: a2 Size_def)
  have B: "Size (fst (snd (Erase plain 2 (fst spare_plain) (snd spare_plain)))) = 2
   \<and> elements (snd (snd (Erase plain 2 (fst spare_plain) (snd spare_plain))))
        (fst (snd (Erase plain 2 (fst spare_plain) (snd spare_plain)))) = [Some 1, Some 2]"
    using Erase_removes_one_element[of "snd spare_plain" "fst spare_plain" 2 plain] a1 a3 a5
    by (simp add: a2 Size_def)
  have C: "Erase plain 0 Vector_default (empty_mem :: int mem) = (Inl AssertFailed, Vector_default, empty_mem)"
    using Erase_removes_one_element[of empty_mem Vector_default 0 plain] z by simp
  show ?thesis
    using A B C a1 a3 a4 a5 z never_throws_plain by (simp add: a2 Size_def)
qed

end
